theory Spec2Isabelle
  imports Complex_Main "HOL-Library.Sublist"
begin

section \<open>Python strings\<close>

text \<open>
  A Python \<open>str\<close> is a sequence of Unicode code points. The marker \<open>'\<checkmark> VALID JSON'\<close> of
  \<open>server.py\<close> starts with U+2705, which is no 8-bit character, so a \<open>str\<close> is modelled as a
  list of code points and an ASCII literal is mapped into it by \<open>lit\<close>.
\<close>

type_synonym codepoint = nat
type_synonym str = "codepoint list"

definition lit :: "string \<Rightarrow> str" where
  "lit s = map of_char s"

text \<open>\<open>sub in s\<close>: some position of \<open>s\<close> starts with \<open>sub\<close>.\<close>

fun contains :: "'a list \<Rightarrow> 'a list \<Rightarrow> bool" where
  "contains sub [] = (sub = [])"
| "contains sub (c # s) = (prefix sub (c # s) \<or> contains sub s)"

text \<open>
  \<open>s.split(sep)\<close>: a scan from the left that cuts at every occurrence of \<open>sep\<close> and resumes
  behind it; \<open>cur\<close> is the piece collected so far. Python raises \<open>ValueError\<close> for an empty
  separator; \<open>server.py\<close> splits at non-empty literals only, and the scan never cuts at an
  empty one.
\<close>

fun split_from :: "'a list \<Rightarrow> 'a list \<Rightarrow> 'a list \<Rightarrow> 'a list list" where
  "split_from sep cur [] = [cur]"
| "split_from sep cur (c # s) =
     (if sep \<noteq> [] \<and> prefix sep (c # s)
      then cur # split_from sep [] (drop (length sep - 1) s)
      else split_from sep (cur @ [c]) s)"

definition split_str :: "'a list \<Rightarrow> 'a list \<Rightarrow> 'a list list" where
  "split_str sep s = split_from sep [] s"

text \<open>\<open>s.split(sep, 1)\<close>: the same scan, which stops cutting after the first occurrence.\<close>

fun split_once_from :: "'a list \<Rightarrow> 'a list \<Rightarrow> 'a list \<Rightarrow> 'a list list" where
  "split_once_from sep cur [] = [cur]"
| "split_once_from sep cur (c # s) =
     (if sep \<noteq> [] \<and> prefix sep (c # s)
      then [cur, drop (length sep - 1) s]
      else split_once_from sep (cur @ [c]) s)"

definition split_once :: "'a list \<Rightarrow> 'a list \<Rightarrow> 'a list list" where
  "split_once sep s = split_once_from sep [] s"

text \<open>
  \<open>str.isspace\<close> of one code point: the white space of the Unicode database, as CPython's
  \<open>_PyUnicode_IsWhitespace\<close> lists it.
\<close>

definition isspace :: "codepoint \<Rightarrow> bool" where
  "isspace c \<longleftrightarrow>
     (0x09 \<le> c \<and> c \<le> 0x0D) \<or> (0x1C \<le> c \<and> c \<le> 0x20) \<or> c = 0x85 \<or> c = 0xA0 \<or>
     c = 0x1680 \<or> (0x2000 \<le> c \<and> c \<le> 0x200A) \<or> c = 0x2028 \<or> c = 0x2029 \<or>
     c = 0x202F \<or> c = 0x205F \<or> c = 0x3000"

text \<open>\<open>s.strip()\<close>: white space removed at both ends.\<close>

definition strip :: "str \<Rightarrow> str" where
  "strip s = rev (dropWhile isspace (rev (dropWhile isspace s)))"

text \<open>
  \<open>str.isdigit\<close> of one code point. Below U+0080 the digits are \<open>0\<close> to \<open>9\<close>; beyond, the
  answer is read from the Unicode database (Numeric_Type Digit or Decimal), a table of the
  Python runtime that is a parameter \<open>tbl\<close> of the model.
\<close>

definition isdigit :: "(codepoint \<Rightarrow> bool) \<Rightarrow> codepoint \<Rightarrow> bool" where
  "isdigit tbl c \<longleftrightarrow> (if c < 0x80 then 0x30 \<le> c \<and> c \<le> 0x39 else tbl c)"

text \<open>
  One such table: the code points from U+0080 on that \<open>str.isdigit\<close> accepts under
  Unicode 14.0 (CPython 3.11), as inclusive ranges.
\<close>

definition digit_ranges :: "(codepoint \<times> codepoint) list" where
  "digit_ranges =
    [(0xB2, 0xB3), (0xB9, 0xB9), (0x660, 0x669), (0x6F0, 0x6F9), (0x7C0, 0x7C9),
     (0x966, 0x96F), (0x9E6, 0x9EF), (0xA66, 0xA6F), (0xAE6, 0xAEF), (0xB66, 0xB6F),
     (0xBE6, 0xBEF), (0xC66, 0xC6F), (0xCE6, 0xCEF), (0xD66, 0xD6F), (0xDE6, 0xDEF),
     (0xE50, 0xE59), (0xED0, 0xED9), (0xF20, 0xF29), (0x1040, 0x1049), (0x1090, 0x1099),
     (0x1369, 0x1371), (0x17E0, 0x17E9), (0x1810, 0x1819), (0x1946, 0x194F), (0x19D0, 0x19DA),
     (0x1A80, 0x1A89), (0x1A90, 0x1A99), (0x1B50, 0x1B59), (0x1BB0, 0x1BB9), (0x1C40, 0x1C49),
     (0x1C50, 0x1C59), (0x2070, 0x2070), (0x2074, 0x2079), (0x2080, 0x2089), (0x2460, 0x2468),
     (0x2474, 0x247C), (0x2488, 0x2490), (0x24EA, 0x24EA), (0x24F5, 0x24FD), (0x24FF, 0x24FF),
     (0x2776, 0x277E), (0x2780, 0x2788), (0x278A, 0x2792), (0xA620, 0xA629), (0xA8D0, 0xA8D9),
     (0xA900, 0xA909), (0xA9D0, 0xA9D9), (0xA9F0, 0xA9F9), (0xAA50, 0xAA59), (0xABF0, 0xABF9),
     (0xFF10, 0xFF19), (0x104A0, 0x104A9), (0x10A40, 0x10A43), (0x10D30, 0x10D39),
     (0x10E60, 0x10E68), (0x11052, 0x1105A), (0x11066, 0x1106F), (0x110F0, 0x110F9),
     (0x11136, 0x1113F), (0x111D0, 0x111D9), (0x112F0, 0x112F9), (0x11450, 0x11459),
     (0x114D0, 0x114D9), (0x11650, 0x11659), (0x116C0, 0x116C9), (0x11730, 0x11739),
     (0x118E0, 0x118E9), (0x11950, 0x11959), (0x11C50, 0x11C59), (0x11D50, 0x11D59),
     (0x11DA0, 0x11DA9), (0x16A60, 0x16A69), (0x16AC0, 0x16AC9), (0x16B50, 0x16B59),
     (0x1D7CE, 0x1D7FF), (0x1E140, 0x1E149), (0x1E2F0, 0x1E2F9), (0x1E950, 0x1E959),
     (0x1F100, 0x1F10A), (0x1FBF0, 0x1FBF9)]"

fun in_ranges :: "codepoint \<Rightarrow> (codepoint \<times> codepoint) list \<Rightarrow> bool" where
  "in_ranges c [] = False"
| "in_ranges c ((lo, hi) # rs) = ((lo \<le> c \<and> c \<le> hi) \<or> in_ranges c rs)"

definition unicode_digit :: "codepoint \<Rightarrow> bool" where
  "unicode_digit c = in_ranges c digit_ranges"

section \<open>Exceptions\<close>

text \<open>
  The exceptions of the two endpoints: \<open>subprocess.TimeoutExpired\<close>, those the interpreter
  raises on an index, a key, an operand type, a missing attribute or undecodable bytes, and
  \<open>Failure d\<close> for any other exception of a library or the operating system, \<open>d\<close> being its
  \<open>str(e)\<close>.
\<close>

datatype exn =
    TimeoutExpired
  | IndexError
  | KeyError
  | TypeError
  | AttributeError
  | UnicodeDecodeError
  | Failure str

text \<open>\<open>xs[i]\<close> for a literal index \<open>i \<ge> 0\<close>.\<close>

definition item :: "'a list \<Rightarrow> nat \<Rightarrow> exn + 'a" where
  "item xs i = (if i < length xs then Inr (xs ! i) else Inl IndexError)"

text \<open>A list comprehension whose element expression may raise: the first exception wins.\<close>

fun collect :: "(exn + 'a) list \<Rightarrow> exn + 'a list" where
  "collect [] = Inr []"
| "collect (x # xs) =
     (case x of Inl e \<Rightarrow> Inl e
      | Inr v \<Rightarrow> (case collect xs of Inl e \<Rightarrow> Inl e | Inr vs \<Rightarrow> Inr (v # vs)))"

section \<open>The output parser of \<open>validate_json\<close>\<close>

definition CHECK_VALID_JSON :: str where
  "CHECK_VALID_JSON = 0x2705 # lit '' VALID JSON''"

definition VALID_JSON :: str where
  "VALID_JSON = lit ''VALID JSON''"

definition INVALID_JSON :: str where
  "INVALID_JSON = lit ''INVALID JSON''"

definition WELL_FORMED_VALID :: str where
  "WELL_FORMED_VALID = lit ''JSON is well-formed and structurally valid''"

definition WELL_FORMED :: str where
  "WELL_FORMED = lit ''JSON is well-formed''"

definition ERRORS_FOUND :: str where
  "ERRORS_FOUND = lit ''Errors Found:''"

definition SEPARATOR :: str where
  "SEPARATOR = lit ''==========''"

definition NEWLINE :: str where
  "NEWLINE = [0x0A]"

definition DOT_SPACE :: str where
  "DOT_SPACE = lit ''. ''"

definition VALIDATION_COMPLETED :: str where
  "VALIDATION_COMPLETED = lit ''Validation completed''"

record verdict =
  valid :: bool
  message :: str
  errors :: "str list"

text \<open>Lines 129 to 133: \<open>and\<close> binds tighter than \<open>or\<close>.\<close>

definition is_valid :: "str \<Rightarrow> bool" where
  "is_valid output \<longleftrightarrow>
     contains CHECK_VALID_JSON output \<or>
     (contains VALID_JSON output \<and> \<not> contains INVALID_JSON output) \<or>
     contains WELL_FORMED_VALID output"

text \<open>
  Lines 136 to 140. The filter \<open>line.strip() and line.strip()[0].isdigit()\<close> reads the first
  code point only of a non-empty stripped line.
\<close>

definition starts_with_digit :: "(codepoint \<Rightarrow> bool) \<Rightarrow> str \<Rightarrow> bool" where
  "starts_with_digit tbl s = (case s of [] \<Rightarrow> False | c # _ \<Rightarrow> isdigit tbl c)"

definition error_lines :: "(codepoint \<Rightarrow> bool) \<Rightarrow> str \<Rightarrow> str list" where
  "error_lines tbl error_section =
     map strip (filter (\<lambda>line. starts_with_digit tbl (strip line))
                  (split_str NEWLINE error_section))"

definition error_text :: "str \<Rightarrow> exn + str" where
  "error_text line =
     (if contains DOT_SPACE line then item (split_once DOT_SPACE line) 1 else Inr line)"

definition extract_errors :: "(codepoint \<Rightarrow> bool) \<Rightarrow> str \<Rightarrow> exn + str list" where
  "extract_errors tbl output =
     (if contains ERRORS_FOUND output then
        (case item (split_str ERRORS_FOUND output) 1 of
           Inl e \<Rightarrow> Inl e
         | Inr rest \<Rightarrow>
             (case item (split_str SEPARATOR rest) 0 of
                Inl e \<Rightarrow> Inl e
              | Inr error_section \<Rightarrow> collect (map error_text (error_lines tbl error_section))))
      else Inr [])"

text \<open>
  Lines 147 to 151 and 158 to 162: the loop over \<open>enumerate(lines)\<close>, from the line at hand
  on, \<open>msg\<close> being \<open>message_section\<close>. The last line has no successor and is skipped by
  \<open>i + 1 < len(lines)\<close>.
\<close>

fun scan_message :: "str \<Rightarrow> str list \<Rightarrow> str \<Rightarrow> str" where
  "scan_message marker (line # next # rest) msg =
     (if contains marker line
      then (let msg' = strip next
            in if msg' \<noteq> [] then msg' else scan_message marker (next # rest) msg')
      else scan_message marker (next # rest) msg)"
| "scan_message marker [line] msg = msg"
| "scan_message marker [] msg = msg"

definition extract_message :: "str \<Rightarrow> str" where
  "extract_message output =
     (if contains INVALID_JSON output
      then scan_message INVALID_JSON (split_str NEWLINE output) VALIDATION_COMPLETED
      else if contains VALID_JSON output \<or> contains WELL_FORMED output
      then (if contains WELL_FORMED_VALID output then WELL_FORMED_VALID
            else scan_message VALID_JSON (split_str NEWLINE output) VALIDATION_COMPLETED)
      else VALIDATION_COMPLETED)"

definition parse_output :: "(codepoint \<Rightarrow> bool) \<Rightarrow> str \<Rightarrow> exn + verdict" where
  "parse_output tbl output =
     (case extract_errors tbl output of
        Inl e \<Rightarrow> Inl e
      | Inr errs \<Rightarrow>
          Inr \<lparr>valid = is_valid output, message = extract_message output, errors = errs\<rparr>)"

section \<open>The validation endpoint\<close>

text \<open>
  What \<open>request.get_json()\<close> returns: \<open>None\<close>, a \<open>bool\<close>, an \<open>int\<close>, a \<open>float\<close>, a \<open>str\<close>, a
  \<open>list\<close> or a \<open>dict\<close> (its items, looked up from the left). A float is the real number it
  denotes (\<open>0.0\<close> and \<open>-0.0\<close> are both \<open>Finite 0\<close>) or one of the three special values that
  \<open>json.loads\<close> accepts.
\<close>

datatype pyfloat = Finite real | Infinity | NegInfinity | NaN

datatype json =
    JNull
  | JBool bool
  | JInt int
  | JFloat pyfloat
  | JStr str
  | JArr "json list"
  | JObj "(str \<times> json) list"

text \<open>Python's truth value, as \<open>not data\<close> tests it.\<close>

fun truthy :: "json \<Rightarrow> bool" where
  "truthy JNull = False"
| "truthy (JBool b) = b"
| "truthy (JInt n) = (n \<noteq> 0)"
| "truthy (JFloat x) = (x \<noteq> Finite 0)"
| "truthy (JStr s) = (s \<noteq> [])"
| "truthy (JArr xs) = (xs \<noteq> [])"
| "truthy (JObj kvs) = (kvs \<noteq> [])"

definition JSON_KEY :: str where
  "JSON_KEY = lit ''json''"

text \<open>
  \<open>'json' in data\<close>: a key of a dict, a substring of a str, an element of a list (only the
  str \<open>'json'\<close> equals it), and a \<open>TypeError\<close> on a value that is no container.
\<close>

fun json_in :: "json \<Rightarrow> exn + bool" where
  "json_in (JObj kvs) = Inr (JSON_KEY \<in> set (map fst kvs))"
| "json_in (JStr s) = Inr (contains JSON_KEY s)"
| "json_in (JArr xs) = Inr (JStr JSON_KEY \<in> set xs)"
| "json_in _ = Inl TypeError"

text \<open>\<open>data['json']\<close>: the value of a dict; a str or a list takes integer indices only.\<close>

fun json_item :: "json \<Rightarrow> exn + json" where
  "json_item (JObj kvs) = (case map_of kvs JSON_KEY of None \<Rightarrow> Inl KeyError | Some v \<Rightarrow> Inr v)"
| "json_item _ = Inl TypeError"

datatype http_method = GET | POST | OPTIONS

record request =
  request_method :: http_method
  get_json :: "exn + json"

datatype body = Empty | Json verdict

type_synonym response = "body \<times> nat"

type_synonym filename = str

text \<open>
  The part of the machine the handler touches: the files that exist, with their text, and
  the temporary files on which the external validator has been started so far.
\<close>

record world =
  files :: "filename \<rightharpoonup> str"
  started :: "filename list"

record completed_process =
  returncode :: int
  stdout :: str
  stderr :: str

text \<open>
  What the handler takes from outside \<open>server.py\<close>:
  \<^item> \<open>digit_table\<close>, the Unicode table behind \<open>str.isdigit\<close>;
  \<^item> \<open>wording\<close>, the interpreter's \<open>str(e)\<close> for the exceptions it raises itself;
  \<^item> \<open>named_temporary_file\<close>, the name \<open>tempfile.NamedTemporaryFile\<close> creates, or its failure;
  \<^item> \<open>write_text\<close>, the failure, if any, of writing and closing the temporary file;
  \<^item> \<open>run_java\<close>, what \<open>subprocess.run\<close> does with the validator on a file: it returns
    the completed process or raises, and leaves the files as the process left them.

  Removing a file that exists succeeds. The \<open>print\<close> calls are not modelled.
\<close>

record env =
  digit_table :: "codepoint \<Rightarrow> bool"
  wording :: "exn \<Rightarrow> str"
  named_temporary_file :: "world \<Rightarrow> exn + filename"
  write_text :: "filename \<Rightarrow> str \<Rightarrow> exn option"
  run_java :: "filename \<Rightarrow> (filename \<rightharpoonup> str) \<Rightarrow> (exn + completed_process) \<times> (filename \<rightharpoonup> str)"

text \<open>\<open>str(e)\<close>.\<close>

definition str_of_exn :: "env \<Rightarrow> exn \<Rightarrow> str" where
  "str_of_exn E e = (case e of Failure d \<Rightarrow> d | _ \<Rightarrow> wording E e)"

text \<open>Lines 87 to 91.\<close>

definition missing_field_response :: response where
  "missing_field_response =
     (Json \<lparr>valid = False, message = lit ''No JSON input provided'',
            errors = [lit ''Request must include '' @ [0x22] @ lit ''json'' @ [0x22] @ lit '' field'']\<rparr>,
      400)"

text \<open>Lines 177 to 181.\<close>

definition timeout_response :: response where
  "timeout_response =
     (Json \<lparr>valid = False, message = lit ''Validation timeout'',
            errors = [lit ''Validation process took too long'']\<rparr>,
      500)"

text \<open>Lines 187 to 191.\<close>

definition server_error_response :: "str \<Rightarrow> response" where
  "server_error_response d =
     (Json \<lparr>valid = False, message = lit ''Server error'', errors = [d]\<rparr>, 500)"

text \<open>Lines 172 and 173, the \<open>finally\<close> block.\<close>

definition remove_if_exists :: "filename \<Rightarrow> world \<Rightarrow> world" where
  "remove_if_exists temp_filename w =
     (if temp_filename \<in> dom (files w) then w\<lparr>files := (files w)(temp_filename := None)\<rparr> else w)"

text \<open>
  Lines 100 to 173, the inner \<open>try\<close> with its \<open>finally\<close>: the process is started on the
  temporary file, its standard output is parsed, and on every way out the file is removed.
\<close>

definition run_validator :: "env \<Rightarrow> filename \<Rightarrow> world \<Rightarrow> (exn + response) \<times> world" where
  "run_validator E temp_filename w =
     (let (result, fs) = run_java E temp_filename (files w);
          w' = w\<lparr>files := fs, started := started w @ [temp_filename]\<rparr>;
          outcome =
            (case result of
               Inl e \<Rightarrow> Inl e
             | Inr p \<Rightarrow>
                 (case parse_output (digit_table E) (stdout p) of
                    Inl e \<Rightarrow> Inl e
                  | Inr v \<Rightarrow> Inr (Json v, 200)))
      in (outcome, remove_if_exists temp_filename w'))"

text \<open>
  Lines 96 to 98, the \<open>with\<close> block, and what follows it. The file is created empty
  (\<open>delete=False\<close>); \<open>write\<close> raises \<open>TypeError\<close> on anything but a str. An exception in the
  block closes the file and leaves the block, which is outside the inner \<open>try\<close>.
\<close>

definition write_and_run :: "env \<Rightarrow> json \<Rightarrow> world \<Rightarrow> (exn + response) \<times> world" where
  "write_and_run E json_input w =
     (case named_temporary_file E w of
        Inl e \<Rightarrow> (Inl e, w)
      | Inr temp_filename \<Rightarrow>
          (let w' = w\<lparr>files := (files w)(temp_filename \<mapsto> [])\<rparr>
           in case json_input of
                JStr text \<Rightarrow>
                  (case write_text E temp_filename text of
                     Some e \<Rightarrow> (Inl e, w')
                   | None \<Rightarrow>
                       run_validator E temp_filename
                         (w'\<lparr>files := (files w')(temp_filename \<mapsto> text)\<rparr>))
              | _ \<Rightarrow> (Inl TypeError, w')))"

text \<open>Line 86: \<open>not data or 'json' not in data\<close>, the right operand read only for a true \<open>data\<close>.\<close>

definition field_missing :: "json \<Rightarrow> exn + bool" where
  "field_missing data =
     (if \<not> truthy data then Inr True
      else case json_in data of Inl e \<Rightarrow> Inl e | Inr b \<Rightarrow> Inr (\<not> b))"

text \<open>Lines 84 to 173, the body of the outer \<open>try\<close>.\<close>

definition try_validate :: "env \<Rightarrow> request \<Rightarrow> world \<Rightarrow> (exn + response) \<times> world" where
  "try_validate E req w =
     (case get_json req of
        Inl e \<Rightarrow> (Inl e, w)
      | Inr data \<Rightarrow>
          (case field_missing data of
             Inl e \<Rightarrow> (Inl e, w)
           | Inr True \<Rightarrow> (Inr missing_field_response, w)
           | Inr False \<Rightarrow>
               (case json_item data of
                  Inl e \<Rightarrow> (Inl e, w)
                | Inr json_input \<Rightarrow> write_and_run E json_input w)))"

text \<open>Lines 73 to 191: the handler with its two \<open>except\<close> clauses.\<close>

definition validate_json :: "env \<Rightarrow> request \<Rightarrow> world \<Rightarrow> response \<times> world" where
  "validate_json E req w =
     (if request_method req = OPTIONS then ((Empty, 204), w)
      else case try_validate E req w of
             (Inr resp, w') \<Rightarrow> (resp, w')
           | (Inl TimeoutExpired, w') \<Rightarrow> (timeout_response, w')
           | (Inl e, w') \<Rightarrow> (server_error_response (str_of_exn E e), w'))"

section \<open>The visitor counter\<close>

text \<open>
  \<open>visitor_count.json\<close> as \<open>get_visitor_count_from_file\<close> meets it: it does not exist; it
  cannot be opened or read (\<open>IOError\<close>); its bytes cannot be decoded (\<open>UnicodeDecodeError\<close>); its
  text is no JSON (\<open>JSONDecodeError\<close>, an empty file included); or \<open>json.load\<close> returns a value.
\<close>

datatype count_file = Missing | Unreadable | Undecodable | NotJson | Parsed json

definition COUNT_KEY :: str where
  "COUNT_KEY = lit ''count''"

text \<open>
  Lines 28 to 39. The \<open>except\<close> clause catches \<open>IOError\<close> and \<open>JSONDecodeError\<close> only: undecodable
  bytes raise, and so does \<open>data.get\<close> on a value that is no dict.
\<close>

fun get_visitor_count_from_file :: "count_file \<Rightarrow> exn + json" where
  "get_visitor_count_from_file Missing = Inr (JInt 0)"
| "get_visitor_count_from_file Unreadable = Inr (JInt 0)"
| "get_visitor_count_from_file NotJson = Inr (JInt 0)"
| "get_visitor_count_from_file Undecodable = Inl UnicodeDecodeError"
| "get_visitor_count_from_file (Parsed (JObj kvs)) =
     Inr (case map_of kvs COUNT_KEY of None \<Rightarrow> JInt 0 | Some count \<Rightarrow> count)"
| "get_visitor_count_from_file (Parsed _) = Inl AttributeError"

text \<open>Lines 41 to 45: the file is replaced by the record \<open>{"count": count}\<close>.\<close>

definition save_visitor_count_to_file :: "json \<Rightarrow> count_file \<Rightarrow> count_file" where
  "save_visitor_count_to_file count f = Parsed (JObj [(COUNT_KEY, count)])"

text \<open>The file that holds the record \<open>{"count": n}\<close> for an integer \<open>n\<close>.\<close>

definition Record :: "int \<Rightarrow> count_file" where
  "Record n = Parsed (JObj [(COUNT_KEY, JInt n)])"

text \<open>
  Line 56, \<open>current_count + 1\<close>: integer addition on an int and on a bool, the float addition
  of the runtime, which is the parameter \<open>fadd\<close>, on a float, and a \<open>TypeError\<close> on anything
  else.
\<close>

fun plus_one :: "(pyfloat \<Rightarrow> pyfloat) \<Rightarrow> json \<Rightarrow> exn + json" where
  "plus_one fadd (JInt n) = Inr (JInt (n + 1))"
| "plus_one fadd (JBool b) = Inr (JInt ((if b then 1 else 0) + 1))"
| "plus_one fadd (JFloat x) = Inr (JFloat (fadd x))"
| "plus_one fadd _ = Inl TypeError"

text \<open>
  A POST to \<open>/api/visitor_count\<close> (lines 53 to 60) takes \<open>COUNT_LOCK\<close> twice: inside
  \<open>get_visitor_count_from_file\<close> and inside \<open>save_visitor_count_to_file\<close>, each of which
  releases it on return. Every access to the file is made under the lock, so the body of
  each of the two functions is one atomic step, and requests served by concurrent threads
  interleave between the steps. A request is at its start, or holds the \<open>current_count\<close> it
  has read, or has returned its \<open>new_count\<close>, or has ended with an exception. Opening and
  writing the file in \<open>save_visitor_count_to_file\<close> succeed.
\<close>

datatype post_request = Start | Read json | Returned json | Raised exn

inductive step ::
  "(pyfloat \<Rightarrow> pyfloat) \<Rightarrow> count_file \<times> post_request list \<Rightarrow>
   count_file \<times> post_request list \<Rightarrow> bool"
  for fadd :: "pyfloat \<Rightarrow> pyfloat" where
  read_count: "i < length ts \<Longrightarrow> ts ! i = Start \<Longrightarrow>
           get_visitor_count_from_file f = Inr current_count \<Longrightarrow>
           step fadd (f, ts) (f, ts[i := Read current_count])"
| read_raises: "i < length ts \<Longrightarrow> ts ! i = Start \<Longrightarrow>
           get_visitor_count_from_file f = Inl e \<Longrightarrow>
           step fadd (f, ts) (f, ts[i := Raised e])"
| save_count: "i < length ts \<Longrightarrow> ts ! i = Read current_count \<Longrightarrow>
           plus_one fadd current_count = Inr new_count \<Longrightarrow>
           step fadd (f, ts) (save_visitor_count_to_file new_count f,
                              ts[i := Returned new_count])"
| add_raises: "i < length ts \<Longrightarrow> ts ! i = Read current_count \<Longrightarrow>
           plus_one fadd current_count = Inl e \<Longrightarrow>
           step fadd (f, ts) (f, ts[i := Raised e])"

inductive run ::
  "(pyfloat \<Rightarrow> pyfloat) \<Rightarrow> count_file \<times> post_request list \<Rightarrow>
   count_file \<times> post_request list \<Rightarrow> bool"
  for fadd :: "pyfloat \<Rightarrow> pyfloat" where
  run_end: "run fadd s s"
| run_step: "step fadd s s' \<Longrightarrow> run fadd s' s'' \<Longrightarrow> run fadd s s''"

fun returned :: "post_request \<Rightarrow> bool" where
  "returned (Returned n) = True"
| "returned _ = False"

section \<open>Notions in which the properties of the parser are stated\<close>

text \<open>
  These are not code of \<open>server.py\<close>: they say what a text made of lines is, which line is the
  first marked one with a message behind it, and what is left of a numbered line.

  \<open>join_lines ls\<close> is the text whose lines are \<open>ls\<close>, that is \<open>'\n'.join(ls)\<close>.
\<close>

fun join_lines :: "str list \<Rightarrow> str" where
  "join_lines [] = []"
| "join_lines [l] = l"
| "join_lines (l # ls) = l @ NEWLINE @ join_lines ls"

text \<open>
  Line \<open>i\<close> is the first line that holds the marker and is followed by a line that is not
  blank: every marked line before it is followed by a blank one.
\<close>

definition first_hit :: "str \<Rightarrow> str list \<Rightarrow> nat \<Rightarrow> bool" where
  "first_hit marker ls i \<longleftrightarrow>
     i + 1 < length ls \<and> sublist marker (ls ! i) \<and> strip (ls ! (i + 1)) \<noteq> [] \<and>
     (\<forall>j<i. sublist marker (ls ! j) \<longrightarrow> strip (ls ! (j + 1)) = [])"

text \<open>\<open>e\<close> is what follows the first occurrence of \<open>sep\<close> in \<open>s\<close>.\<close>

definition after_first :: "'a list \<Rightarrow> 'a list \<Rightarrow> 'a list \<Rightarrow> bool" where
  "after_first sep s e \<longleftrightarrow>
     (\<exists>a. s = a @ sep @ e \<and> (\<forall>i<length a. \<not> prefix sep (drop i s)))"

text \<open>
  The entry of an error line: what follows its first \<open>'. '\<close>, or the whole line when it has
  none.
\<close>

definition entry_of :: "str \<Rightarrow> str \<Rightarrow> bool" where
  "entry_of line e \<longleftrightarrow>
     (if sublist DOT_SPACE line then after_first DOT_SPACE line e else e = line)"

text \<open>\<open>b\<close> is \<open>s\<close> up to its first occurrence of \<open>sep\<close>, or all of \<open>s\<close> when it has none.\<close>

definition upto_first :: "'a list \<Rightarrow> 'a list \<Rightarrow> 'a list \<Rightarrow> bool" where
  "upto_first sep s b \<longleftrightarrow>
     (if sublist sep s
      then \<exists>e. s = b @ sep @ e \<and> (\<forall>i<length b. \<not> prefix sep (drop i s))
      else b = s)"

text \<open>
  The error section of a text: of what follows the first \<open>'Errors Found:'\<close>, the part before
  the next \<open>'Errors Found:'\<close> (all of it when there is no other), cut at its first
  \<open>'=========='\<close> (not cut when it has none).
\<close>

definition section_of :: "str \<Rightarrow> str \<Rightarrow> bool" where
  "section_of output sect \<longleftrightarrow>
     (\<exists>rest piece. after_first ERRORS_FOUND output rest \<and>
        upto_first ERRORS_FOUND rest piece \<and> upto_first SEPARATOR piece sect)"

section \<open>Sample requests and environments\<close>

text \<open>
  Concrete inputs on which the theorems below are run: a wording that names the class of an
  exception of the interpreter, a temporary file name, an environment in which creating and
  writing the temporary file succeed and the validator process ends as \<open>outcome\<close> says, a
  POST with a parsed body, and a machine without files.
\<close>

fun class_name :: "exn \<Rightarrow> str" where
  "class_name TimeoutExpired = lit ''TimeoutExpired''"
| "class_name IndexError = lit ''IndexError''"
| "class_name KeyError = lit ''KeyError''"
| "class_name TypeError = lit ''TypeError''"
| "class_name AttributeError = lit ''AttributeError''"
| "class_name UnicodeDecodeError = lit ''UnicodeDecodeError''"
| "class_name (Failure d) = d"

definition tmp_name :: filename where
  "tmp_name = lit ''/tmp/tmpk3v9.txt''"

definition sample_env :: "exn + completed_process \<Rightarrow> env" where
  "sample_env outcome =
     \<lparr>digit_table = unicode_digit, wording = class_name,
      named_temporary_file = (\<lambda>w. Inr tmp_name),
      write_text = (\<lambda>name candidate. None),
      run_java = (\<lambda>name fs. (outcome, fs))\<rparr>"

definition post :: "json \<Rightarrow> request" where
  "post data = \<lparr>request_method = POST, get_json = Inr data\<rparr>"

definition empty_world :: world where
  "empty_world = \<lparr>files = Map.empty, started = []\<rparr>"

definition JAVA_NOT_FOUND :: str where
  "JAVA_NOT_FOUND = lit ''[Errno 2] No such file or directory: java''"

section \<open>Facts about the string operations\<close>

lemmas phrases = CHECK_VALID_JSON_def VALID_JSON_def INVALID_JSON_def WELL_FORMED_VALID_def
  WELL_FORMED_def ERRORS_FOUND_def SEPARATOR_def NEWLINE_def DOT_SPACE_def
  VALIDATION_COMPLETED_def lit_def

lemma contains_sublist: "contains sub s \<longleftrightarrow> sublist sub s"
  by (induction s) (auto simp: sublist_Cons_right)

lemma contains_iff: "contains sub s \<longleftrightarrow> (\<exists>p q. s = p @ sub @ q)"
  by (simp add: contains_sublist sublist_def)

lemma split_from_cur:
  "split_from sep cur s = (cur @ hd (split_from sep [] s)) # tl (split_from sep [] s)"
proof (induction "length s" arbitrary: s cur rule: less_induct)
  case less
  show ?case
  proof (cases s)
    case Nil
    then show ?thesis by simp
  next
    case (Cons c t)
    show ?thesis
    proof (cases "sep \<noteq> [] \<and> prefix sep (c # t)")
      case True
      then show ?thesis using Cons by simp
    next
      case False
      have shorter: "length t < length s" using Cons by simp
      have a: "split_from sep (cur @ [c]) t =
                 ((cur @ [c]) @ hd (split_from sep [] t)) # tl (split_from sep [] t)"
        by (rule less [OF shorter])
      have b: "split_from sep [c] t = ([c] @ hd (split_from sep [] t)) # tl (split_from sep [] t)"
        by (rule less [OF shorter])
      show ?thesis using False Cons a b by simp
    qed
  qed
qed

lemma split_from_not_Nil: "split_from sep cur s \<noteq> []"
  by (subst split_from_cur) simp

lemma split_from_absent: "\<not> contains sep s \<Longrightarrow> split_from sep cur s = [cur @ s]"
  by (induction s arbitrary: cur) auto

lemma split_from_first:
  assumes "sep \<noteq> []" and "\<forall>i<length p. \<not> prefix sep (drop i (p @ sep @ q))"
  shows "split_from sep cur (p @ sep @ q) = (cur @ p) # split_from sep [] q"
  using assms(2)
proof (induction p arbitrary: cur)
  case Nil
  obtain x xs where sep: "sep = x # xs" using assms(1) by (cases sep) auto
  show ?case by (simp add: sep)
next
  case (Cons c p)
  have "\<not> prefix sep (c # p @ sep @ q)" using Cons.prems [rule_format, of 0] by simp
  moreover have "\<forall>i<length p. \<not> prefix sep (drop i (p @ sep @ q))"
  proof (intro allI impI)
    fix i assume "i < length p"
    then show "\<not> prefix sep (drop i (p @ sep @ q))"
      using Cons.prems [rule_format, of "Suc i"] by simp
  qed
  ultimately show ?case using Cons.IH [of "cur @ [c]"] by simp
qed

lemma split_from_present:
  "sep \<noteq> [] \<Longrightarrow> contains sep s \<Longrightarrow> 2 \<le> length (split_from sep cur s)"
proof (induction s arbitrary: cur)
  case Nil
  then show ?case by simp
next
  case (Cons c s)
  show ?case
  proof (cases "prefix sep (c # s)")
    case True
    then show ?thesis
      using Cons.prems(1) split_from_not_Nil [of sep "[]" "drop (length sep - 1) s"]
      by (cases "split_from sep [] (drop (length sep - 1) s)") auto
  next
    case False
    then show ?thesis using Cons by simp
  qed
qed

lemma split_once_from_present:
  "sep \<noteq> [] \<Longrightarrow> contains sep s \<Longrightarrow> length (split_once_from sep cur s) = 2"
  by (induction s arbitrary: cur) auto

lemma prefix_drop_sublist: "prefix sep (drop i a) \<Longrightarrow> sublist sep a"
proof -
  assume "prefix sep (drop i a)"
  then have "sublist sep (drop i a)" by (rule prefix_imp_sublist)
  moreover have "sublist (drop i a) a" by (rule sublist_drop)
  ultimately show ?thesis by (rule sublist_order.order.trans)
qed

lemma no_start_before_end:
  assumes "\<not> sublist sep a" and "a = [] \<or> last a \<notin> set sep" and "i < length a"
  shows "\<not> prefix sep (drop i (a @ b))"
proof
  assume p: "prefix sep (drop i (a @ b))"
  let ?r = "drop i a"
  have r: "?r \<noteq> []" using assms(3) by simp
  have a: "a \<noteq> []" using assms(3) by auto
  have "prefix sep (?r @ b)" using p assms(3) by simp
  then have "prefix sep ?r \<or> (\<exists>us. sep = ?r @ us \<and> prefix us b)"
    by (simp only: prefix_append)
  then show False
  proof (elim disjE exE conjE)
    assume "prefix sep ?r"
    then show False using assms(1) prefix_drop_sublist by blast
  next
    fix us assume s: "sep = ?r @ us"
    have "last ?r = last a" using assms(3) by simp
    moreover have "last ?r \<in> set ?r" by (rule last_in_set) (rule r)
    then have "last ?r \<in> set sep" by (subst s) simp
    ultimately show False using assms(2) a by simp
  qed
qed

lemma no_start_before_occurrence:
  assumes "sep \<noteq> []" and "hd sep \<notin> set (tl sep)" and "\<not> sublist sep a" and "i < length a"
  shows "\<not> prefix sep (drop i (a @ sep @ b))"
proof
  assume p: "prefix sep (drop i (a @ sep @ b))"
  let ?r = "drop i a"
  have r: "?r \<noteq> []" using assms(4) by simp
  obtain y ys where ry: "?r = y # ys" using r by (cases ?r) auto
  obtain x xs where sep: "sep = x # xs" using assms(1) by (cases sep) auto
  have "prefix sep (?r @ (sep @ b))" using p assms(4) by simp
  then have "prefix sep ?r \<or> (\<exists>us. sep = ?r @ us \<and> prefix us (sep @ b))"
    by (simp only: prefix_append)
  then show False
  proof (elim disjE exE conjE)
    assume "prefix sep ?r"
    then show False using assms(3) prefix_drop_sublist by blast
  next
    fix us assume s: "sep = ?r @ us" and u: "prefix us (sep @ b)"
    show False
    proof (cases us)
      case Nil
      then have "sep = ?r" using s by simp
      then have "prefix sep ?r" by simp
      then show False using assms(3) prefix_drop_sublist by blast
    next
      case (Cons u us')
      have "prefix (u # us') (x # xs @ b)" using u Cons sep by simp
      then have "u = x" by simp
      moreover have "sep = (y # ys) @ u # us'" using s Cons ry by simp
      then have "u \<in> set (tl sep)" by simp
      ultimately show False using assms(2) sep by simp
    qed
  qed
qed

lemma sublist_append_disjoint:
  assumes "\<not> sublist sep a" and "set b \<inter> set sep = {}" and "sep \<noteq> []"
  shows "\<not> sublist sep (a @ b)"
proof
  assume "sublist sep (a @ b)"
  then have "sublist sep a \<or> sublist sep b \<or>
      (\<exists>xs1 xs2. sep = xs1 @ xs2 \<and> suffix xs1 a \<and> prefix xs2 b)"
    by (simp only: sublist_append)
  then show False
  proof (elim disjE exE conjE)
    assume "sublist sep a"
    then show False using assms(1) by simp
  next
    assume "sublist sep b"
    then have "set sep \<subseteq> set b" by (rule set_mono_sublist)
    moreover obtain x xs where "sep = x # xs" using assms(3) by (cases sep) auto
    ultimately show False using assms(2) by auto
  next
    fix xs1 xs2 assume s: "sep = xs1 @ xs2" and s1: "suffix xs1 a" and p2: "prefix xs2 b"
    show False
    proof (cases xs2)
      case Nil
      then have "suffix sep a" using s s1 by simp
      then have "sublist sep a" by (rule suffix_imp_sublist)
      then show False using assms(1) by simp
    next
      case (Cons x xs)
      then have "x \<in> set b" using p2 by (auto simp: prefix_def)
      moreover have "x \<in> set sep" using s Cons by simp
      ultimately show False using assms(2) by auto
    qed
  qed
qed

lemma split_from_piece:
  assumes "\<forall>i<length a. \<not> prefix sep (drop i (a @ b))"
  shows "\<exists>t ps. split_from sep cur (a @ b) = (cur @ a @ t) # ps"
  using assms
proof (induction a arbitrary: cur)
  case Nil
  have "split_from sep cur b = (cur @ hd (split_from sep [] b)) # tl (split_from sep [] b)"
    by (rule split_from_cur)
  then show ?case by auto
next
  case (Cons c a)
  have n: "\<not> prefix sep (c # a @ b)" using Cons.prems [rule_format, of 0] by simp
  have "\<forall>i<length a. \<not> prefix sep (drop i (a @ b))"
  proof (intro allI impI)
    fix i assume "i < length a"
    then show "\<not> prefix sep (drop i (a @ b))"
      using Cons.prems [rule_format, of "Suc i"] by simp
  qed
  then obtain t ps where "split_from sep (cur @ [c]) (a @ b) = ((cur @ [c]) @ a @ t) # ps"
    using Cons.IH [of "cur @ [c]"] by blast
  then show ?case using n by simp
qed

lemma split_char_absent: "c \<notin> set l \<Longrightarrow> split_from [c] cur l = [cur @ l]"
  by (induction l arbitrary: cur) auto

lemma split_char_first:
  "c \<notin> set l \<Longrightarrow> split_from [c] cur (l @ c # rest) = (cur @ l) # split_from [c] [] rest"
  by (induction l arbitrary: cur) auto

lemma split_join_lines:
  "ls \<noteq> [] \<Longrightarrow> \<forall>l\<in>set ls. 0x0A \<notin> set l \<Longrightarrow>
   split_from NEWLINE cur (join_lines ls) = (cur @ hd ls) # tl ls"
proof (induction ls arbitrary: cur rule: join_lines.induct)
  case 1
  then show ?case by simp
next
  case (2 l)
  then show ?case by (simp add: NEWLINE_def split_char_absent)
next
  case (3 l v va)
  have "split_from NEWLINE [] (join_lines (v # va)) = ([] @ hd (v # va)) # tl (v # va)"
    using 3 by simp
  moreover have "10 \<notin> set l" using "3.prems"(2) by simp
  ultimately show ?case by (simp add: NEWLINE_def split_char_first)
qed

lemma split_str_join_lines:
  "ls \<noteq> [] \<Longrightarrow> \<forall>l\<in>set ls. 0x0A \<notin> set l \<Longrightarrow> split_str NEWLINE (join_lines ls) = ls"
  by (simp add: split_str_def split_join_lines)

lemma sublist_join_lines: "l \<in> set ls \<Longrightarrow> sublist m l \<Longrightarrow> sublist m (join_lines ls)"
proof (induction ls rule: join_lines.induct)
  case 1
  then show ?case by simp
next
  case (2 l')
  then show ?case by simp
next
  case (3 l' v va)
  show ?case
  proof (cases "l = l'")
    case True
    have "sublist l' (l' @ NEWLINE @ join_lines (v # va))" by (rule sublist_append_rightI)
    then show ?thesis using 3(3) True sublist_order.order.trans by fastforce
  next
    case False
    then have "sublist m (join_lines (v # va))" using 3 by simp
    moreover have "sublist (join_lines (v # va)) ((l' @ NEWLINE) @ join_lines (v # va))"
      by (rule sublist_append_leftI)
    ultimately have "sublist m ((l' @ NEWLINE) @ join_lines (v # va))"
      by (rule sublist_order.order.trans)
    then show ?thesis by simp
  qed
qed

lemma scan_message_no_hit:
  "\<forall>j. j + 1 < length ls \<longrightarrow> \<not> contains marker (ls ! j) \<Longrightarrow> scan_message marker ls msg = msg"
proof (induction marker ls msg rule: scan_message.induct)
  case (1 marker line nxt rest msg)
  have "\<not> contains marker line" using 1(3) [rule_format, of 0] by simp
  moreover have "\<forall>j. j + 1 < length (nxt # rest) \<longrightarrow> \<not> contains marker ((nxt # rest) ! j)"
  proof (intro allI impI)
    fix j assume "j + 1 < length (nxt # rest)"
    then show "\<not> contains marker ((nxt # rest) ! j)" using 1(3) [rule_format, of "Suc j"] by simp
  qed
  ultimately show ?case using 1(2) by simp
qed simp_all

lemma scan_message_first_hit:
  "first_hit marker ls i \<Longrightarrow> scan_message marker ls msg = strip (ls ! (i + 1))"
proof (induction marker ls msg arbitrary: i rule: scan_message.induct)
  case (1 marker line nxt rest msg)
  show ?case
  proof (cases i)
    case 0
    then show ?thesis using 1(3) by (simp add: first_hit_def contains_sublist Let_def)
  next
    case (Suc k)
    have h: "first_hit marker (nxt # rest) k"
      unfolding first_hit_def
    proof (intro conjI allI impI)
      show "k + 1 < length (nxt # rest)" using 1(3) Suc by (simp add: first_hit_def)
      show "sublist marker ((nxt # rest) ! k)" using 1(3) Suc by (simp add: first_hit_def)
      show "strip ((nxt # rest) ! (k + 1)) \<noteq> []" using 1(3) Suc by (simp add: first_hit_def)
    next
      fix j assume "j < k" "sublist marker ((nxt # rest) ! j)"
      then show "strip ((nxt # rest) ! (j + 1)) = []"
        using 1(3) Suc by (auto simp: first_hit_def dest!: spec [of _ "Suc j"])
    qed
    have blank: "contains marker line \<Longrightarrow> strip nxt = []"
      using 1(3) Suc by (auto simp: first_hit_def contains_sublist dest!: spec [of _ 0])
    show ?thesis
    proof (cases "contains marker line")
      case True
      then show ?thesis using blank 1(1) [OF True refl _ h] Suc by (simp add: Let_def)
    next
      case False
      then show ?thesis using 1(2) [OF False h] Suc by simp
    qed
  qed
next
  case (2 marker line msg)
  then show ?case by (simp add: first_hit_def)
next
  case (3 marker msg)
  then show ?case by (simp add: first_hit_def)
qed

lemma invalid_holds_valid: "sublist VALID_JSON INVALID_JSON"
  by (simp add: contains_sublist [symmetric] phrases)

lemma well_formed_valid_holds_well_formed: "sublist WELL_FORMED WELL_FORMED_VALID"
  by (simp add: contains_sublist [symmetric] phrases)

section \<open>The \<open>valid\<close> flag\<close>

text \<open>
  C1, as the code has it. The \<open>valid\<close> flag is true exactly when the text contains
  \<open>'\<checkmark> VALID JSON'\<close> (whatever else it contains), or contains \<open>'VALID JSON'\<close> and does not
  contain \<open>'INVALID JSON'\<close>, or contains \<open>'JSON is well-formed and structurally valid'\<close>; to
  contain a phrase is to be some text, the phrase, and some text.
\<close>

theorem is_valid_phrases:
  "is_valid output \<longleftrightarrow>
     (\<exists>p q. output = p @ CHECK_VALID_JSON @ q) \<or>
     ((\<exists>p q. output = p @ VALID_JSON @ q) \<and> \<not> (\<exists>p q. output = p @ INVALID_JSON @ q)) \<or>
     (\<exists>p q. output = p @ WELL_FORMED_VALID @ q)"
  by (simp add: is_valid_def contains_iff)

theorem is_valid_phrases_witness:
  "is_valid (lit ''VALID JSON'') \<and> \<not> is_valid (lit ''INVALID JSON'')"
proof -
  have a: "contains VALID_JSON (lit ''VALID JSON'')"
    and b: "\<not> contains INVALID_JSON (lit ''VALID JSON'')"
    and c: "contains INVALID_JSON (lit ''INVALID JSON'')"
    and d: "\<not> contains CHECK_VALID_JSON (lit ''INVALID JSON'')"
    and e: "\<not> contains WELL_FORMED_VALID (lit ''INVALID JSON'')"
    by (simp_all add: phrases)
  show ?thesis
    using is_valid_phrases [of "lit ''VALID JSON''"] is_valid_phrases [of "lit ''INVALID JSON''"]
      a b c d e
    unfolding contains_iff by blast
qed

text \<open>
  C1, as the claim states it, fails on the text \<open>'\<checkmark> VALID JSON, INVALID JSON'\<close>: it holds a
  valid marker beside an invalid one and no well-formed phrase, and the flag is true.
\<close>

theorem is_valid_check_mark_beside_invalid:
  "\<not> (is_valid (0x2705 # lit '' VALID JSON, INVALID JSON'') \<longleftrightarrow>
      ((contains CHECK_VALID_JSON (0x2705 # lit '' VALID JSON, INVALID JSON'') \<or>
        contains VALID_JSON (0x2705 # lit '' VALID JSON, INVALID JSON'')) \<and>
       \<not> contains INVALID_JSON (0x2705 # lit '' VALID JSON, INVALID JSON'')) \<or>
      contains WELL_FORMED_VALID (0x2705 # lit '' VALID JSON, INVALID JSON''))"
  by (simp add: is_valid_def phrases)

section \<open>The error list\<close>

lemma split_once_from_first:
  "sep \<noteq> [] \<Longrightarrow> contains sep s \<Longrightarrow>
   \<exists>a e. split_once_from sep cur s = [cur @ a, e] \<and> s = a @ sep @ e \<and>
         (\<forall>i<length a. \<not> prefix sep (drop i s))"
proof (induction s arbitrary: cur)
  case Nil
  then show ?case by simp
next
  case (Cons c s)
  show ?case
  proof (cases "prefix sep (c # s)")
    case True
    then obtain zs where zs: "c # s = sep @ zs" by (auto simp: prefix_def)
    obtain x xs where sep: "sep = x # xs" using Cons.prems(1) by (cases sep) auto
    have d: "drop (length sep - 1) s = zs" using zs sep by simp
    have "split_once_from sep cur (c # s) = [cur, drop (length sep - 1) s]"
      using True Cons.prems(1) by simp
    then have "split_once_from sep cur (c # s) = [cur @ [], zs]" using d by simp
    moreover have "c # s = [] @ sep @ zs" using zs by simp
    moreover have "\<forall>i<length ([]::'a list). \<not> prefix sep (drop i (c # s))" by simp
    ultimately have "split_once_from sep cur (c # s) = [cur @ [], zs] \<and> c # s = [] @ sep @ zs \<and>
               (\<forall>i<length ([]::'a list). \<not> prefix sep (drop i (c # s)))"
      by blast
    then show ?thesis by blast
  next
    case False
    then have "contains sep s" using Cons.prems(2) by simp
    then obtain a e where ae: "split_once_from sep (cur @ [c]) s = [(cur @ [c]) @ a, e]"
      "s = a @ sep @ e" "\<forall>i<length a. \<not> prefix sep (drop i s)"
      using Cons.IH [OF Cons.prems(1), of "cur @ [c]"] by blast
    have "\<forall>i<length (c # a). \<not> prefix sep (drop i (c # s))"
    proof (intro allI impI)
      fix i assume i: "i < length (c # a)"
      show "\<not> prefix sep (drop i (c # s))"
      proof (cases i)
        case 0
        then show ?thesis using False by simp
      next
        case (Suc j)
        then show ?thesis using i ae(3) by simp
      qed
    qed
    moreover have "split_once_from sep cur (c # s) = [cur @ (c # a), e]"
      using False ae(1) by simp
    moreover have "c # s = (c # a) @ sep @ e" using ae(2) by simp
    ultimately show ?thesis by blast
  qed
qed

lemma error_text_entry: "\<exists>e. error_text line = Inr e \<and> entry_of line e"
proof (cases "contains DOT_SPACE line")
  case True
  have ne: "DOT_SPACE \<noteq> []" by (simp add: phrases)
  obtain a e where ae: "split_once_from DOT_SPACE [] line = [[] @ a, e]"
    "line = a @ DOT_SPACE @ e" "\<forall>i<length a. \<not> prefix DOT_SPACE (drop i line)"
    using split_once_from_first [OF ne True, of "[]"] by blast
  have "error_text line = Inr e"
    using True ae(1) by (simp add: error_text_def split_once_def item_def)
  moreover have "entry_of line e"
    using True ae(2,3) by (auto simp: entry_of_def after_first_def contains_sublist)
  ultimately show ?thesis by blast
next
  case False
  then show ?thesis by (simp add: error_text_def entry_of_def contains_sublist)
qed

lemma collect_entries:
  "\<exists>es. collect (map error_text ls) = Inr es \<and> list_all2 entry_of ls es"
proof (induction ls)
  case Nil
  then show ?case by simp
next
  case (Cons l ls)
  obtain e where e: "error_text l = Inr e" "entry_of l e" using error_text_entry by blast
  obtain es where es: "collect (map error_text ls) = Inr es" "list_all2 entry_of ls es"
    using Cons.IH by blast
  have "collect (map error_text (l # ls)) = Inr (e # es)" using e(1) es(1) by simp
  moreover have "list_all2 entry_of (l # ls) (e # es)" using e(2) es(2) by simp
  ultimately show ?case by blast
qed

lemma extract_errors_total: "\<exists>es. extract_errors tbl output = Inr es"
proof (cases "contains ERRORS_FOUND output")
  case True
  have ne: "ERRORS_FOUND \<noteq> []" by (simp add: phrases)
  have "2 \<le> length (split_from ERRORS_FOUND [] output)"
    using ne True by (rule split_from_present)
  then have 1: "item (split_str ERRORS_FOUND output) 1 = Inr (split_str ERRORS_FOUND output ! 1)"
    by (simp add: item_def split_str_def)
  have 0: "item (split_str SEPARATOR r) 0 = Inr (split_str SEPARATOR r ! 0)" for r
    using split_from_not_Nil [of SEPARATOR "[]" r] by (simp add: item_def split_str_def)
  let ?sec = "split_str SEPARATOR (split_str ERRORS_FOUND output ! 1) ! 0"
  obtain es where "collect (map error_text (error_lines tbl ?sec)) = Inr es"
    using collect_entries by blast
  then show ?thesis
    using True 1 0 by (simp add: extract_errors_def)
next
  case False
  then show ?thesis by (simp add: extract_errors_def)
qed

lemma error_section:
  assumes "\<not> sublist ERRORS_FOUND pre" and "\<not> sublist ERRORS_FOUND sect"
    and "\<not> sublist SEPARATOR sect" and "sect = [] \<or> last sect \<noteq> 0x3D"
  shows "extract_errors tbl (pre @ ERRORS_FOUND @ sect @ SEPARATOR @ suf) =
           collect (map error_text (error_lines tbl sect))"
proof -
  let ?rest = "sect @ SEPARATOR @ suf"
  let ?out = "pre @ ERRORS_FOUND @ ?rest"
  have ne: "ERRORS_FOUND \<noteq> []" and hd: "hd ERRORS_FOUND \<notin> set (tl ERRORS_FOUND)"
    and dj: "set SEPARATOR \<inter> set ERRORS_FOUND = {}" and ns: "SEPARATOR \<noteq> []"
    and ls: "last SEPARATOR \<notin> set ERRORS_FOUND" and ss: "set SEPARATOR = {0x3D}"
    by (simp_all add: phrases)
  have c: "contains ERRORS_FOUND ?out" by (simp add: contains_sublist)
  have "\<forall>i<length pre. \<not> prefix ERRORS_FOUND (drop i (pre @ ERRORS_FOUND @ ?rest))"
    using no_start_before_occurrence [OF ne hd assms(1)] by blast
  then have s1: "split_from ERRORS_FOUND [] ?out = ([] @ pre) # split_from ERRORS_FOUND [] ?rest"
    using ne by (rule split_from_first [rotated])
  have b: "\<not> sublist ERRORS_FOUND (sect @ SEPARATOR)"
    using assms(2) dj ne by (rule sublist_append_disjoint)
  have "sect @ SEPARATOR = [] \<or> last (sect @ SEPARATOR) \<notin> set ERRORS_FOUND"
    using ns ls by simp
  then have "\<forall>i<length (sect @ SEPARATOR).
      \<not> prefix ERRORS_FOUND (drop i ((sect @ SEPARATOR) @ suf))"
    using no_start_before_end [OF b] by blast
  then obtain t ps where
    "split_from ERRORS_FOUND [] ((sect @ SEPARATOR) @ suf) = ([] @ (sect @ SEPARATOR) @ t) # ps"
    using split_from_piece by blast
  then have s2: "split_from ERRORS_FOUND [] ?rest = (sect @ SEPARATOR @ t) # ps" by simp
  have i1: "item (split_str ERRORS_FOUND ?out) 1 = Inr (sect @ SEPARATOR @ t)"
    using s1 s2 by (simp add: split_str_def item_def)
  have "sect = [] \<or> last sect \<notin> set SEPARATOR" using assms(4) ss by simp
  then have "\<forall>i<length sect. \<not> prefix SEPARATOR (drop i (sect @ SEPARATOR @ t))"
    using no_start_before_end [OF assms(3)] by blast
  then have "split_from SEPARATOR [] (sect @ SEPARATOR @ t) =
               ([] @ sect) # split_from SEPARATOR [] t"
    using ns by (rule split_from_first [rotated])
  then have i0: "item (split_str SEPARATOR (sect @ SEPARATOR @ t)) 0 = Inr sect"
    by (simp add: split_str_def item_def)
  show ?thesis
    using c i1 i0 by (simp add: extract_errors_def)
qed

lemma error_lines_join:
  "ls \<noteq> [] \<Longrightarrow> \<forall>l\<in>set ls. 0x0A \<notin> set l \<Longrightarrow>
   error_lines tbl (join_lines ls) = filter (starts_with_digit tbl) (map strip ls)"
  by (simp add: error_lines_def split_str_join_lines filter_map o_def)

lemma foo_bar_section:
  "collect (map error_text
     (error_lines tbl ([0x0A] @ lit ''1. foo'' @ [0x0A] @ lit ''2. bar'' @ [0x0A]))) =
   Inr [lit ''foo'', lit ''bar'']"
  by (simp add: phrases split_str_def item_def error_lines_def strip_def starts_with_digit_def
      isspace_def isdigit_def error_text_def split_once_def)

lemma hd_split_from:
  assumes "sep \<noteq> []" and "upto_first sep s b"
  shows "hd (split_from sep [] s) = b"
proof (cases "sublist sep s")
  case True
  then obtain e where e: "s = b @ sep @ e" "\<forall>i<length b. \<not> prefix sep (drop i s)"
    using assms(2) by (auto simp: upto_first_def)
  have "\<forall>i<length b. \<not> prefix sep (drop i (b @ sep @ e))" using e by simp
  then have "split_from sep [] (b @ sep @ e) = ([] @ b) # split_from sep [] e"
    using assms(1) by (rule split_from_first [rotated])
  then show ?thesis using e(1) by simp
next
  case False
  then have "b = s" using assms(2) by (simp add: upto_first_def)
  moreover have "split_from sep [] s = [[] @ s]"
    using False by (intro split_from_absent) (simp add: contains_sublist)
  ultimately show ?thesis by simp
qed

lemma section_errors:
  assumes "section_of output sect"
  shows "extract_errors tbl output = collect (map error_text (error_lines tbl sect))"
proof -
  obtain rest piece where r: "after_first ERRORS_FOUND output rest"
    and p: "upto_first ERRORS_FOUND rest piece" and s: "upto_first SEPARATOR piece sect"
    using assms by (auto simp: section_of_def)
  have ne: "ERRORS_FOUND \<noteq> []" and ns: "SEPARATOR \<noteq> []" by (simp_all add: phrases)
  obtain a where a: "output = a @ ERRORS_FOUND @ rest"
    "\<forall>i<length a. \<not> prefix ERRORS_FOUND (drop i output)"
    using r by (auto simp: after_first_def)
  have c: "contains ERRORS_FOUND output" using a(1) by (simp add: contains_sublist)
  have "\<forall>i<length a. \<not> prefix ERRORS_FOUND (drop i (a @ ERRORS_FOUND @ rest))"
    using a by simp
  then have "split_from ERRORS_FOUND [] (a @ ERRORS_FOUND @ rest) =
               ([] @ a) # split_from ERRORS_FOUND [] rest"
    using ne by (rule split_from_first [rotated])
  then have s1: "split_from ERRORS_FOUND [] output = a # split_from ERRORS_FOUND [] rest"
    using a(1) by simp
  have nn: "split_from ERRORS_FOUND [] rest \<noteq> []" by (rule split_from_not_Nil)
  have "hd (split_from ERRORS_FOUND [] rest) = piece" using ne p by (rule hd_split_from)
  then have i1: "item (split_str ERRORS_FOUND output) 1 = Inr piece"
    using s1 nn by (cases "split_from ERRORS_FOUND [] rest") (simp_all add: split_str_def item_def)
  have n0: "split_from SEPARATOR [] piece \<noteq> []" by (rule split_from_not_Nil)
  have "hd (split_from SEPARATOR [] piece) = sect" using ns s by (rule hd_split_from)
  then have i0: "item (split_str SEPARATOR piece) 0 = Inr sect"
    using n0 by (cases "split_from SEPARATOR [] piece") (simp_all add: split_str_def item_def)
  show ?thesis using c i1 i0 by (simp add: extract_errors_def)
qed

lemma upto_first_exists: "\<exists>b. upto_first sep s b"
proof (cases "sublist sep s")
  case False
  then show ?thesis by (simp add: upto_first_def)
next
  case True
  show ?thesis
  proof (cases "sep = []")
    case True
    have "upto_first sep s []" using True by (simp add: upto_first_def)
    then show ?thesis by blast
  next
    case False
    have "contains sep s" using True by (simp add: contains_sublist)
    then obtain a e where "split_once_from sep [] s = [[] @ a, e]" "s = a @ sep @ e"
      "\<forall>i<length a. \<not> prefix sep (drop i s)"
      using split_once_from_first [OF False, of s "[]"] by blast
    then have "upto_first sep s a" using True by (auto simp: upto_first_def)
    then show ?thesis by blast
  qed
qed

lemma after_first_exists: "sep \<noteq> [] \<Longrightarrow> sublist sep s \<Longrightarrow> \<exists>e. after_first sep s e"
proof -
  assume ne: "sep \<noteq> []" and "sublist sep s"
  then have "contains sep s" by (simp add: contains_sublist)
  then obtain a e where "split_once_from sep [] s = [[] @ a, e]" "s = a @ sep @ e"
    "\<forall>i<length a. \<not> prefix sep (drop i s)"
    using split_once_from_first [OF ne, of s "[]"] by blast
  then have "after_first sep s e" by (auto simp: after_first_def)
  then show ?thesis by blast
qed

lemma section_exists: "sublist ERRORS_FOUND output \<Longrightarrow> \<exists>sect. section_of output sect"
proof -
  assume h: "sublist ERRORS_FOUND output"
  have ne: "ERRORS_FOUND \<noteq> []" by (simp add: phrases)
  obtain rest where "after_first ERRORS_FOUND output rest"
    using after_first_exists [OF ne h] by blast
  moreover obtain piece where "upto_first ERRORS_FOUND rest piece"
    using upto_first_exists by blast
  moreover obtain sect where "upto_first SEPARATOR piece sect"
    using upto_first_exists by blast
  ultimately show ?thesis by (auto simp: section_of_def)
qed

lemma lines_exist: "\<exists>ls. ls \<noteq> [] \<and> (\<forall>l\<in>set ls. 0x0A \<notin> set l) \<and> s = join_lines ls"
proof (induction s)
  case Nil
  have "[[]] \<noteq> [] \<and> (\<forall>l\<in>set [[]::str]. 0x0A \<notin> set l) \<and> [] = join_lines [[]]" by simp
  then show ?case by blast
next
  case (Cons c s)
  then obtain ls where ls: "ls \<noteq> []" "\<forall>l\<in>set ls. 0x0A \<notin> set l" "s = join_lines ls" by blast
  obtain l ls' where l: "ls = l # ls'" using ls(1) by (cases ls) auto
  show ?case
  proof (cases "c = 0x0A")
    case True
    have "c # s = join_lines ([] # ls)" using True ls(3) l by (simp add: NEWLINE_def)
    moreover have "\<forall>x\<in>set ([] # ls). 0x0A \<notin> set x" using ls(2) by simp
    ultimately show ?thesis by blast
  next
    case False
    have "c # s = join_lines ((c # l) # ls')" using ls(3) l by (cases ls') simp_all
    moreover have "\<forall>x\<in>set ((c # l) # ls'). 0x0A \<notin> set x" using ls(2) l False by simp
    ultimately show ?thesis by blast
  qed
qed

text \<open>
  C2, as the code has it. The error list is non-empty only if the text contains
  \<open>'Errors Found:'\<close>. Every text with the header has an error section: of what follows the
  first \<open>'Errors Found:'\<close>, the part before the next \<open>'Errors Found:'\<close> (all of it when there
  is no other), cut at its first \<open>'=========='\<close> (not cut when it has none). The entries
  come, in order, from exactly the lines of the section that, stripped of white space, start
  with a digit; the entry of such a stripped line is what follows its first \<open>'. '\<close>, or the
  whole line when it has none. In particular the errors are \<open>foo\<close> and \<open>bar\<close> when the first
  header of the text is followed by the two numbered lines and the separator.
\<close>

theorem errors_of_section:
  "(extract_errors tbl output = Inr es \<and> es \<noteq> [] \<longrightarrow> sublist ERRORS_FOUND output) \<and>
   (sublist ERRORS_FOUND output \<longrightarrow>
      (\<exists>sect ls. section_of output sect \<and> ls \<noteq> [] \<and> (\<forall>l\<in>set ls. 0x0A \<notin> set l) \<and>
                 sect = join_lines ls)) \<and>
   (section_of output sect \<and> ls \<noteq> [] \<and> (\<forall>l\<in>set ls. 0x0A \<notin> set l) \<and> sect = join_lines ls \<longrightarrow>
      (\<exists>es'. extract_errors tbl output = Inr es' \<and>
             list_all2 entry_of (filter (starts_with_digit tbl) (map strip ls)) es')) \<and>
   (\<not> sublist ERRORS_FOUND pre \<longrightarrow>
      extract_errors tbl
        (pre @ ERRORS_FOUND @ ([0x0A] @ lit ''1. foo'' @ [0x0A] @ lit ''2. bar'' @ [0x0A]) @
         SEPARATOR @ suf) =
      Inr [lit ''foo'', lit ''bar''])"
proof (intro conjI impI)
  assume "extract_errors tbl output = Inr es \<and> es \<noteq> []"
  then show "sublist ERRORS_FOUND output"
    by (auto simp: extract_errors_def contains_sublist split: if_splits)
next
  assume h: "sublist ERRORS_FOUND output"
  obtain sect' where s: "section_of output sect'" using section_exists [OF h] by blast
  obtain ls' where "ls' \<noteq> []" "\<forall>l\<in>set ls'. 0x0A \<notin> set l" "sect' = join_lines ls'"
    using lines_exist [of sect'] by blast
  then show "\<exists>sect ls. section_of output sect \<and> ls \<noteq> [] \<and> (\<forall>l\<in>set ls. 0x0A \<notin> set l) \<and>
                 sect = join_lines ls"
    using s by blast
next
  assume a: "section_of output sect \<and> ls \<noteq> [] \<and> (\<forall>l\<in>set ls. 0x0A \<notin> set l) \<and>
             sect = join_lines ls"
  then have "section_of output sect" by blast
  then have "extract_errors tbl output = collect (map error_text (error_lines tbl sect))"
    by (rule section_errors)
  moreover have "error_lines tbl sect = filter (starts_with_digit tbl) (map strip ls)"
    using a by (simp add: error_lines_join)
  ultimately show "\<exists>es'. extract_errors tbl output = Inr es' \<and>
      list_all2 entry_of (filter (starts_with_digit tbl) (map strip ls)) es'"
    using collect_entries [of "filter (starts_with_digit tbl) (map strip ls)"] by simp
next
  let ?sect = "[0x0A] @ lit ''1. foo'' @ [0x0A] @ lit ''2. bar'' @ [0x0A]"
  assume p: "\<not> sublist ERRORS_FOUND pre"
  have "\<not> sublist ERRORS_FOUND ?sect" and "\<not> sublist SEPARATOR ?sect"
    and "?sect = [] \<or> last ?sect \<noteq> 0x3D"
    by (simp_all add: contains_sublist [symmetric] phrases)
  then have "extract_errors tbl (pre @ ERRORS_FOUND @ ?sect @ SEPARATOR @ suf) =
               collect (map error_text (error_lines tbl ?sect))"
    using p by (intro error_section)
  then show "extract_errors tbl (pre @ ERRORS_FOUND @ ?sect @ SEPARATOR @ suf) =
               Inr [lit ''foo'', lit ''bar'']"
    by (simp only: foo_bar_section)
qed

theorem errors_of_section_witness:
  "extract_errors unicode_digit
     (lit ''INVALID JSON'' @ ERRORS_FOUND @
      ([0x0A] @ lit ''1. foo'' @ [0x0A] @ lit ''2. bar'' @ [0x0A]) @ SEPARATOR @ []) =
   Inr [lit ''foo'', lit ''bar'']"
proof -
  have "\<not> sublist ERRORS_FOUND (lit ''INVALID JSON'')"
    by (simp add: contains_sublist [symmetric] phrases)
  then show ?thesis
    using errors_of_section
      [where tbl = unicode_digit and pre = "lit ''INVALID JSON''" and suf = "[]"]
    by blast
qed

text \<open>
  C2, as the claim states it, fails on a text that contains the literal of the claim behind
  an earlier section: the errors are those of the first section.
\<close>

theorem errors_of_second_section:
  "contains (lit ''Errors Found:'' @ [0x0A] @ lit ''1. foo'' @ [0x0A] @ lit ''2. bar'' @ [0x0A] @
             lit ''=========='')
     (lit ''Errors Found:'' @ [0x0A] @ lit ''9. x'' @ [0x0A] @ lit ''=========='' @ [0x0A] @
      lit ''Errors Found:'' @ [0x0A] @ lit ''1. foo'' @ [0x0A] @ lit ''2. bar'' @ [0x0A] @
      lit ''=========='') \<and>
   extract_errors unicode_digit
     (lit ''Errors Found:'' @ [0x0A] @ lit ''9. x'' @ [0x0A] @ lit ''=========='' @ [0x0A] @
      lit ''Errors Found:'' @ [0x0A] @ lit ''1. foo'' @ [0x0A] @ lit ''2. bar'' @ [0x0A] @
      lit ''=========='') = Inr [lit ''x'']"
  by (simp add: extract_errors_def phrases split_str_def item_def error_lines_def strip_def
      starts_with_digit_def isspace_def isdigit_def error_text_def split_once_def)

section \<open>The message\<close>

lemma last_line_only:
  assumes "ls \<noteq> []" and "\<forall>l\<in>set ls. 0x0A \<notin> set l"
    and a: "(\<forall>j. j + 1 < length ls \<longrightarrow> \<not> sublist VALID_JSON (ls ! j)) \<and>
          \<not> sublist WELL_FORMED_VALID (join_lines ls)"
  shows "extract_message (join_lines ls) = VALIDATION_COMPLETED"
proof -
  let ?out = "join_lines ls"
  have lines: "split_str NEWLINE ?out = ls" using assms(1,2) by (rule split_str_join_lines)
  have v: "\<forall>j. j + 1 < length ls \<longrightarrow> \<not> contains VALID_JSON (ls ! j)"
    using a by (simp add: contains_sublist)
  have "\<forall>j. j + 1 < length ls \<longrightarrow> \<not> contains INVALID_JSON (ls ! j)"
  proof (intro allI impI)
    fix j assume "j + 1 < length ls"
    then have "\<not> sublist VALID_JSON (ls ! j)" using a by blast
    then have "\<not> sublist INVALID_JSON (ls ! j)"
      using invalid_holds_valid sublist_order.order.trans by blast
    then show "\<not> contains INVALID_JSON (ls ! j)" by (simp add: contains_sublist)
  qed
  then have "scan_message INVALID_JSON ls VALIDATION_COMPLETED = VALIDATION_COMPLETED"
    by (rule scan_message_no_hit)
  moreover have "scan_message VALID_JSON ls VALIDATION_COMPLETED = VALIDATION_COMPLETED"
    using v by (rule scan_message_no_hit)
  ultimately show ?thesis
    using a by (simp add: extract_message_def contains_sublist lines)
qed

text \<open>
  C3, as the code has it, for a text given by its lines. Without \<open>'VALID JSON'\<close> and without
  \<open>'JSON is well-formed'\<close> the message is \<open>Validation completed\<close>. With \<open>'INVALID JSON'\<close> on
  some line that is followed by a line that is not blank, the message is the stripped line
  behind the first such line, whatever valid markers the text holds. Without \<open>'INVALID JSON'\<close>
  and with \<open>'JSON is well-formed and structurally valid'\<close>, the message is that phrase itself.
  Without both, the message is the stripped line behind the first line that holds
  \<open>'VALID JSON'\<close> and is followed by a line that is not blank. When no line but the last
  holds \<open>'VALID JSON'\<close> and the text is without the long well-formed phrase, the message is
  \<open>Validation completed\<close>.
\<close>

theorem message_of_lines:
  assumes "ls \<noteq> []" and "\<forall>l\<in>set ls. 0x0A \<notin> set l"
  shows "(\<not> sublist VALID_JSON (join_lines ls) \<and> \<not> sublist WELL_FORMED (join_lines ls) \<longrightarrow>
            extract_message (join_lines ls) = VALIDATION_COMPLETED) \<and>
         (first_hit INVALID_JSON ls i \<longrightarrow>
            extract_message (join_lines ls) = strip (ls ! (i + 1))) \<and>
         (\<not> sublist INVALID_JSON (join_lines ls) \<and> sublist WELL_FORMED_VALID (join_lines ls) \<longrightarrow>
            extract_message (join_lines ls) = WELL_FORMED_VALID) \<and>
         (\<not> sublist INVALID_JSON (join_lines ls) \<and> \<not> sublist WELL_FORMED_VALID (join_lines ls) \<and>
          first_hit VALID_JSON ls i \<longrightarrow>
            extract_message (join_lines ls) = strip (ls ! (i + 1))) \<and>
         ((\<forall>j. j + 1 < length ls \<longrightarrow> \<not> sublist VALID_JSON (ls ! j)) \<and>
          \<not> sublist WELL_FORMED_VALID (join_lines ls) \<longrightarrow>
            extract_message (join_lines ls) = VALIDATION_COMPLETED)"
proof (intro conjI impI)
  let ?out = "join_lines ls"
  have lines: "split_str NEWLINE ?out = ls" using assms by (rule split_str_join_lines)
  {
    assume a: "\<not> sublist VALID_JSON ?out \<and> \<not> sublist WELL_FORMED ?out"
    have "\<not> sublist INVALID_JSON ?out"
      using a invalid_holds_valid sublist_order.order.trans by blast
    then show "extract_message ?out = VALIDATION_COMPLETED"
      using a by (simp add: extract_message_def contains_sublist)
  }
  {
    assume h: "first_hit INVALID_JSON ls i"
    then have "ls ! i \<in> set ls" and "sublist INVALID_JSON (ls ! i)"
      by (simp_all add: first_hit_def)
    then have "sublist INVALID_JSON ?out" by (rule sublist_join_lines)
    moreover have "scan_message INVALID_JSON ls VALIDATION_COMPLETED = strip (ls ! (i + 1))"
      using h by (rule scan_message_first_hit)
    ultimately show "extract_message ?out = strip (ls ! (i + 1))"
      by (simp add: extract_message_def contains_sublist lines)
  }
  {
    assume a: "\<not> sublist INVALID_JSON ?out \<and> sublist WELL_FORMED_VALID ?out"
    then have "sublist WELL_FORMED ?out"
      using well_formed_valid_holds_well_formed sublist_order.order.trans by blast
    then show "extract_message ?out = WELL_FORMED_VALID"
      using a by (simp add: extract_message_def contains_sublist)
  }
  {
    assume a: "\<not> sublist INVALID_JSON ?out \<and> \<not> sublist WELL_FORMED_VALID ?out \<and>
               first_hit VALID_JSON ls i"
    then have "ls ! i \<in> set ls" and "sublist VALID_JSON (ls ! i)"
      by (simp_all add: first_hit_def)
    then have "sublist VALID_JSON ?out" by (rule sublist_join_lines)
    moreover have "scan_message VALID_JSON ls VALIDATION_COMPLETED = strip (ls ! (i + 1))"
      using a by (intro scan_message_first_hit) simp
    ultimately show "extract_message ?out = strip (ls ! (i + 1))"
      using a by (simp add: extract_message_def contains_sublist lines)
  }
  {
    assume "(\<forall>j. j + 1 < length ls \<longrightarrow> \<not> sublist VALID_JSON (ls ! j)) \<and>
            \<not> sublist WELL_FORMED_VALID ?out"
    with assms show "extract_message ?out = VALIDATION_COMPLETED" by (rule last_line_only)
  }
qed

theorem message_of_lines_witness:
  "extract_message (join_lines [lit ''INVALID JSON'', lit '' Unexpected token '']) =
     lit ''Unexpected token''"
proof -
  have h: "first_hit INVALID_JSON [lit ''INVALID JSON'', lit '' Unexpected token ''] 0"
    by (simp add: first_hit_def contains_sublist [symmetric] strip_def isspace_def phrases)
  have s: "strip (lit '' Unexpected token '') = lit ''Unexpected token''"
    by (simp add: strip_def isspace_def lit_def)
  have n: "\<forall>l\<in>set [lit ''INVALID JSON'', lit '' Unexpected token '']. 0x0A \<notin> set l"
    by (simp add: lit_def)
  show ?thesis
    using message_of_lines [of "[lit ''INVALID JSON'', lit '' Unexpected token '']" 0] h s n
    by simp
qed

text \<open>
  C3, as the claim states it, fails on the text made of the well-formed phrase and the line
  \<open>All good\<close>: the message is the phrase, neither the line that follows it nor the fallback.
\<close>

theorem message_of_well_formed_text:
  "extract_message (lit ''JSON is well-formed and structurally valid'' @ [0x0A] @ lit ''All good'') =
     lit ''JSON is well-formed and structurally valid'' \<and>
   lit ''JSON is well-formed and structurally valid'' \<noteq> lit ''All good'' \<and>
   lit ''JSON is well-formed and structurally valid'' \<noteq> VALIDATION_COMPLETED"
  by (simp add: extract_message_def phrases)

text \<open>
  When every marked line is followed by a blank line, the message is the empty string; here
  for \<open>'INVALID JSON'\<close> and two line ends.
\<close>

lemma blank_line_message: "extract_message (lit ''INVALID JSON'' @ [0x0A, 0x0A]) = []"
  by (simp add: extract_message_def phrases split_str_def strip_def isspace_def)

section \<open>The verdict as a whole\<close>

text \<open>The parser raises no exception: every index it reads exists.\<close>

lemma parse_output_total: "\<exists>v. parse_output tbl output = Inr v"
  using extract_errors_total [of tbl "output"] by (auto simp: parse_output_def)

lemma section_entries:
  assumes "section_of output sect" and "ls \<noteq> []" and "\<forall>l\<in>set ls. 0x0A \<notin> set l"
    and "sect = join_lines ls" and "extract_errors tbl output = Inr es"
  shows "list_all2 entry_of (filter (starts_with_digit tbl) (map strip ls)) es"
proof -
  have "extract_errors tbl output = collect (map error_text (error_lines tbl sect))"
    using assms(1) by (rule section_errors)
  moreover have "error_lines tbl sect = filter (starts_with_digit tbl) (map strip ls)"
    using assms(2-4) by (simp add: error_lines_join)
  moreover obtain es' where
    "collect (map error_text (filter (starts_with_digit tbl) (map strip ls))) = Inr es'"
    "list_all2 entry_of (filter (starts_with_digit tbl) (map strip ls)) es'"
    using collect_entries by blast
  ultimately show ?thesis using assms(5) by simp
qed

lemma errors_nonempty_iff:
  assumes "extract_errors tbl output = Inr es"
  shows "es \<noteq> [] \<longleftrightarrow>
         (\<exists>sect ls. section_of output sect \<and> ls \<noteq> [] \<and> (\<forall>l\<in>set ls. 0x0A \<notin> set l) \<and>
            sect = join_lines ls \<and> (\<exists>l\<in>set ls. starts_with_digit tbl (strip l)))"
proof
  assume ne: "es \<noteq> []"
  then have h: "sublist ERRORS_FOUND output"
    using assms by (auto simp: extract_errors_def contains_sublist split: if_splits)
  obtain sect where s: "section_of output sect" using section_exists [OF h] by blast
  obtain ls where ls: "ls \<noteq> []" "\<forall>l\<in>set ls. 0x0A \<notin> set l" "sect = join_lines ls"
    using lines_exist [of sect] by blast
  have "list_all2 entry_of (filter (starts_with_digit tbl) (map strip ls)) es"
    using s ls assms by (rule section_entries)
  then have "filter (starts_with_digit tbl) (map strip ls) \<noteq> []" using ne by auto
  then obtain x where "x \<in> set (map strip ls)" "starts_with_digit tbl x"
    by (auto simp: filter_empty_conv)
  then have "\<exists>l\<in>set ls. starts_with_digit tbl (strip l)" by auto
  then show "\<exists>sect ls. section_of output sect \<and> ls \<noteq> [] \<and> (\<forall>l\<in>set ls. 0x0A \<notin> set l) \<and>
            sect = join_lines ls \<and> (\<exists>l\<in>set ls. starts_with_digit tbl (strip l))"
    using s ls by blast
next
  assume "\<exists>sect ls. section_of output sect \<and> ls \<noteq> [] \<and> (\<forall>l\<in>set ls. 0x0A \<notin> set l) \<and>
            sect = join_lines ls \<and> (\<exists>l\<in>set ls. starts_with_digit tbl (strip l))"
  then obtain sect ls where s: "section_of output sect" and ls: "ls \<noteq> []"
    "\<forall>l\<in>set ls. 0x0A \<notin> set l" "sect = join_lines ls"
    and d: "\<exists>l\<in>set ls. starts_with_digit tbl (strip l)" by blast
  have "list_all2 entry_of (filter (starts_with_digit tbl) (map strip ls)) es"
    using s ls assms by (rule section_entries)
  moreover have "filter (starts_with_digit tbl) (map strip ls) \<noteq> []"
    using d by (auto simp: filter_empty_conv)
  ultimately show "es \<noteq> []" by auto
qed

text \<open>
  C8, as the code has it. A verdict of the parser has \<open>valid\<close> false whenever its error list
  is non-empty, except for exactly the texts that both hold a valid phrase (\<open>'\<checkmark> VALID JSON'\<close>,
  or \<open>'VALID JSON'\<close> without \<open>'INVALID JSON'\<close>, or
  \<open>'JSON is well-formed and structurally valid'\<close>) and have an error section with a line that,
  stripped of white space, starts with a digit: for those the error list is non-empty and
  \<open>valid\<close> is true.
\<close>

theorem errors_and_valid_together:
  assumes "parse_output tbl output = Inr v"
  shows "(errors v \<noteq> [] \<longrightarrow> \<not> valid v) \<longleftrightarrow>
         \<not> ((sublist CHECK_VALID_JSON output \<or>
             (sublist VALID_JSON output \<and> \<not> sublist INVALID_JSON output) \<or>
             sublist WELL_FORMED_VALID output) \<and>
            (\<exists>sect ls. section_of output sect \<and> ls \<noteq> [] \<and> (\<forall>l\<in>set ls. 0x0A \<notin> set l) \<and>
               sect = join_lines ls \<and> (\<exists>l\<in>set ls. starts_with_digit tbl (strip l))))"
proof -
  obtain es where es: "extract_errors tbl output = Inr es"
    using extract_errors_total by blast
  then have v: "v = \<lparr>valid = is_valid output, message = extract_message output, errors = es\<rparr>"
    using assms by (simp add: parse_output_def)
  have e: "errors v \<noteq> [] \<longleftrightarrow>
         (\<exists>sect ls. section_of output sect \<and> ls \<noteq> [] \<and> (\<forall>l\<in>set ls. 0x0A \<notin> set l) \<and>
            sect = join_lines ls \<and> (\<exists>l\<in>set ls. starts_with_digit tbl (strip l)))"
    using errors_nonempty_iff [OF es] v by simp
  have "valid v \<longleftrightarrow> sublist CHECK_VALID_JSON output \<or>
             (sublist VALID_JSON output \<and> \<not> sublist INVALID_JSON output) \<or>
             sublist WELL_FORMED_VALID output"
    using v by (simp add: is_valid_def contains_sublist)
  then show ?thesis using e by blast
qed

lemma invalid_report:
  "parse_output unicode_digit
     (lit ''INVALID JSON'' @ [0x0A] @ lit ''Errors Found:'' @ [0x0A] @ lit ''1. foo'') =
   Inr \<lparr>valid = False, message = lit ''Errors Found:'', errors = [lit ''foo'']\<rparr>"
  by (simp add: parse_output_def is_valid_def extract_message_def extract_errors_def phrases
      split_str_def item_def error_lines_def strip_def starts_with_digit_def isspace_def
      isdigit_def error_text_def split_once_def)

theorem errors_and_valid_together_witness:
  "\<not> ((sublist CHECK_VALID_JSON
          (lit ''INVALID JSON'' @ [0x0A] @ lit ''Errors Found:'' @ [0x0A] @ lit ''1. foo'') \<or>
        (sublist VALID_JSON
           (lit ''INVALID JSON'' @ [0x0A] @ lit ''Errors Found:'' @ [0x0A] @ lit ''1. foo'') \<and>
         \<not> sublist INVALID_JSON
             (lit ''INVALID JSON'' @ [0x0A] @ lit ''Errors Found:'' @ [0x0A] @ lit ''1. foo'')) \<or>
        sublist WELL_FORMED_VALID
          (lit ''INVALID JSON'' @ [0x0A] @ lit ''Errors Found:'' @ [0x0A] @ lit ''1. foo'')) \<and>
       (\<exists>sect ls. section_of
            (lit ''INVALID JSON'' @ [0x0A] @ lit ''Errors Found:'' @ [0x0A] @ lit ''1. foo'') sect \<and>
          ls \<noteq> [] \<and> (\<forall>l\<in>set ls. 0x0A \<notin> set l) \<and> sect = join_lines ls \<and>
          (\<exists>l\<in>set ls. starts_with_digit unicode_digit (strip l))))"
  using errors_and_valid_together [OF invalid_report] by simp

text \<open>
  C8, as the claim states it, fails on a text with \<open>'\<checkmark> VALID JSON'\<close> and an error section:
  the verdict has one error and is valid.
\<close>

theorem errors_beside_check_mark:
  "parse_output unicode_digit
     (0x2705 # lit '' VALID JSON'' @ [0x0A] @ lit ''Errors Found:'' @ [0x0A] @ lit ''1. foo'') =
   Inr \<lparr>valid = True, message = lit ''Errors Found:'', errors = [lit ''foo'']\<rparr>"
  by (simp add: parse_output_def is_valid_def extract_message_def extract_errors_def phrases
      split_str_def item_def error_lines_def strip_def starts_with_digit_def isspace_def
      isdigit_def error_text_def split_once_def)

section \<open>The validation endpoint: exits and cleanup\<close>

lemma remove_if_exists_absent:
  "temp_filename \<notin> dom (files (remove_if_exists temp_filename w))"
  by (simp add: remove_if_exists_def)

lemma run_validator_removes:
  "temp_filename \<notin> dom (files (snd (run_validator E temp_filename w)))"
  by (simp add: run_validator_def Let_def split_beta remove_if_exists_absent)

lemma run_validator_raises:
  "fst (run_java E temp_filename (files w)) = Inl e \<Longrightarrow>
   fst (run_validator E temp_filename w) = Inl e"
  by (simp add: run_validator_def Let_def split_beta)

lemma object_field_present:
  "map_of kvs JSON_KEY = Some v \<Longrightarrow> field_missing (JObj kvs) = Inr False"
  by (auto simp: field_missing_def dest: map_of_SomeD intro: rev_image_eqI)

lemma object_without_field:
  "request_method req \<noteq> OPTIONS \<Longrightarrow> get_json req = Inr (JObj kvs) \<Longrightarrow>
   JSON_KEY \<notin> fst ` set kvs \<Longrightarrow> validate_json E req w = (missing_field_response, w)"
  by (simp add: validate_json_def try_validate_def field_missing_def)

lemma cleanup_after_write:
  "named_temporary_file E w = Inr temp_filename \<Longrightarrow>
   write_text E temp_filename candidate = None \<Longrightarrow>
   temp_filename \<notin> dom (files (snd (write_and_run E (JStr candidate) w)))"
  by (simp add: write_and_run_def run_validator_removes)

text \<open>
  C4. A POST whose body is an object with a string under \<open>json\<close>, whose temporary file is
  created and written, and whose validator process runs into the timeout, is answered with
  status 500 and the message \<open>Validation timeout\<close>, and the temporary file does not exist in
  the state the handler returns.
\<close>

theorem timeout_gives_500_and_cleanup:
  assumes "request_method req \<noteq> OPTIONS"
    and "get_json req = Inr (JObj kvs)"
    and "map_of kvs JSON_KEY = Some (JStr candidate)"
    and "named_temporary_file E w = Inr temp_filename"
    and "write_text E temp_filename candidate = None"
    and "fst (run_java E temp_filename ((files w)(temp_filename \<mapsto> candidate))) =
           Inl TimeoutExpired"
  shows "fst (validate_json E req w) =
           (Json \<lparr>valid = False, message = lit ''Validation timeout'',
                  errors = [lit ''Validation process took too long'']\<rparr>, 500) \<and>
         temp_filename \<notin> dom (files (snd (validate_json E req w)))"
proof -
  let ?w = "w\<lparr>files := (files w)(temp_filename \<mapsto> candidate)\<rparr>"
  have t: "try_validate E req w = run_validator E temp_filename ?w"
    using assms(2-5) by (simp add: try_validate_def object_field_present write_and_run_def)
  have r: "fst (run_validator E temp_filename ?w) = Inl TimeoutExpired"
    using assms(6) by (intro run_validator_raises) simp
  obtain w' where rw: "run_validator E temp_filename ?w = (Inl TimeoutExpired, w')"
    using r by (cases "run_validator E temp_filename ?w") auto
  have "temp_filename \<notin> dom (files w')"
    using run_validator_removes [of temp_filename E ?w] rw by simp
  then show ?thesis
    using assms(1) t rw by (simp add: validate_json_def timeout_response_def)
qed

theorem timeout_gives_500_and_cleanup_witness:
  "fst (validate_json (sample_env (Inl TimeoutExpired))
          (post (JObj [(lit ''json'', JStr (lit ''{}''))])) empty_world) =
     (Json \<lparr>valid = False, message = lit ''Validation timeout'',
            errors = [lit ''Validation process took too long'']\<rparr>, 500) \<and>
   tmp_name \<notin> dom (files (snd (validate_json (sample_env (Inl TimeoutExpired))
                                   (post (JObj [(lit ''json'', JStr (lit ''{}''))])) empty_world)))"
  by (rule timeout_gives_500_and_cleanup
        [where kvs = "[(lit ''json'', JStr (lit ''{}''))]" and candidate = "lit ''{}''"])
     (simp_all add: sample_env_def post_def empty_world_def JSON_KEY_def)

lemma except_exception:
  assumes "request_method req \<noteq> OPTIONS"
    and "fst (try_validate E req w) = Inl e"
    and "e \<noteq> TimeoutExpired"
  shows "fst (validate_json E req w) =
           (Json \<lparr>valid = False, message = lit ''Server error'', errors = [str_of_exn E e]\<rparr>, 500)"
proof -
  obtain w' where "try_validate E req w = (Inl e, w')"
    using assms(2) by (cases "try_validate E req w") auto
  then show ?thesis
    using assms(1,3) by (cases e) (simp_all add: validate_json_def server_error_response_def)
qed

text \<open>
  C5, as the code has it. A POST that fails with an exception \<open>e\<close> other than the timeout is
  answered with status 500, the fixed message \<open>Server error\<close>, and an error list whose one
  entry is the textual description of \<open>e\<close>. This holds when reading the body of the request
  raises \<open>e\<close>; and, for a body that is an object with a string under \<open>json\<close>, when creating
  the temporary file raises \<open>e\<close>, when writing it raises \<open>e\<close>, and when starting or running
  the validator process raises \<open>e\<close>.
\<close>

theorem failure_gives_server_error:
  assumes "request_method req \<noteq> OPTIONS" and "e \<noteq> TimeoutExpired"
  shows "(get_json req = Inl e \<longrightarrow>
            fst (validate_json E req w) =
              (Json \<lparr>valid = False, message = lit ''Server error'',
                     errors = [str_of_exn E e]\<rparr>, 500)) \<and>
         (get_json req = Inr (JObj kvs) \<and> map_of kvs JSON_KEY = Some (JStr candidate) \<and>
          named_temporary_file E w = Inl e \<longrightarrow>
            fst (validate_json E req w) =
              (Json \<lparr>valid = False, message = lit ''Server error'',
                     errors = [str_of_exn E e]\<rparr>, 500)) \<and>
         (get_json req = Inr (JObj kvs) \<and> map_of kvs JSON_KEY = Some (JStr candidate) \<and>
          named_temporary_file E w = Inr temp_filename \<and>
          write_text E temp_filename candidate = Some e \<longrightarrow>
            fst (validate_json E req w) =
              (Json \<lparr>valid = False, message = lit ''Server error'',
                     errors = [str_of_exn E e]\<rparr>, 500)) \<and>
         (get_json req = Inr (JObj kvs) \<and> map_of kvs JSON_KEY = Some (JStr candidate) \<and>
          named_temporary_file E w = Inr temp_filename \<and>
          write_text E temp_filename candidate = None \<and>
          fst (run_java E temp_filename ((files w)(temp_filename \<mapsto> candidate))) = Inl e \<longrightarrow>
            fst (validate_json E req w) =
              (Json \<lparr>valid = False, message = lit ''Server error'',
                     errors = [str_of_exn E e]\<rparr>, 500))"
proof (intro conjI impI)
  assume "get_json req = Inl e"
  then have "fst (try_validate E req w) = Inl e" by (simp add: try_validate_def)
  with assms(1) show "fst (validate_json E req w) =
      (Json \<lparr>valid = False, message = lit ''Server error'', errors = [str_of_exn E e]\<rparr>, 500)"
    using assms(2) by (rule except_exception)
next
  assume a: "get_json req = Inr (JObj kvs) \<and> map_of kvs JSON_KEY = Some (JStr candidate) \<and>
             named_temporary_file E w = Inl e"
  then have "fst (try_validate E req w) = Inl e"
    by (simp add: try_validate_def object_field_present write_and_run_def)
  with assms(1) show "fst (validate_json E req w) =
      (Json \<lparr>valid = False, message = lit ''Server error'', errors = [str_of_exn E e]\<rparr>, 500)"
    using assms(2) by (rule except_exception)
next
  assume a: "get_json req = Inr (JObj kvs) \<and> map_of kvs JSON_KEY = Some (JStr candidate) \<and>
             named_temporary_file E w = Inr temp_filename \<and>
             write_text E temp_filename candidate = Some e"
  then have "fst (try_validate E req w) = Inl e"
    by (simp add: try_validate_def object_field_present write_and_run_def)
  with assms(1) show "fst (validate_json E req w) =
      (Json \<lparr>valid = False, message = lit ''Server error'', errors = [str_of_exn E e]\<rparr>, 500)"
    using assms(2) by (rule except_exception)
next
  let ?w = "w\<lparr>files := (files w)(temp_filename \<mapsto> candidate)\<rparr>"
  assume a: "get_json req = Inr (JObj kvs) \<and> map_of kvs JSON_KEY = Some (JStr candidate) \<and>
             named_temporary_file E w = Inr temp_filename \<and>
             write_text E temp_filename candidate = None \<and>
             fst (run_java E temp_filename ((files w)(temp_filename \<mapsto> candidate))) = Inl e"
  then have t: "try_validate E req w = run_validator E temp_filename ?w"
    by (simp add: try_validate_def object_field_present write_and_run_def)
  have "fst (run_validator E temp_filename ?w) = Inl e"
    using a by (intro run_validator_raises) simp
  then have "fst (try_validate E req w) = Inl e" using t by simp
  with assms(1) show "fst (validate_json E req w) =
      (Json \<lparr>valid = False, message = lit ''Server error'', errors = [str_of_exn E e]\<rparr>, 500)"
    using assms(2) by (rule except_exception)
qed

theorem failure_gives_server_error_witness:
  "fst (validate_json (sample_env (Inl (Failure JAVA_NOT_FOUND)))
          (post (JObj [(lit ''json'', JStr (lit ''{}''))])) empty_world) =
     (Json \<lparr>valid = False, message = lit ''Server error'', errors = [JAVA_NOT_FOUND]\<rparr>, 500)"
  using failure_gives_server_error
    [where req = "post (JObj [(lit ''json'', JStr (lit ''{}''))])"
       and e = "Failure JAVA_NOT_FOUND" and E = "sample_env (Inl (Failure JAVA_NOT_FOUND))"
       and w = empty_world and kvs = "[(lit ''json'', JStr (lit ''{}''))]"
       and candidate = "lit ''{}''" and temp_filename = tmp_name]
  by (simp add: post_def str_of_exn_def sample_env_def JSON_KEY_def)

text \<open>
  C5, as the claim states it, fails when the validator cannot be started: the message of the
  verdict is \<open>Server error\<close>, which does not carry the description of the failure.
\<close>

theorem launch_failure_message:
  "fst (validate_json (sample_env (Inl (Failure JAVA_NOT_FOUND)))
          (post (JObj [(lit ''json'', JStr (lit ''{}''))])) empty_world) =
     (Json \<lparr>valid = False, message = lit ''Server error'', errors = [JAVA_NOT_FOUND]\<rparr>, 500) \<and>
   \<not> contains JAVA_NOT_FOUND (lit ''Server error'')"
  by (simp add: validate_json_def try_validate_def post_def field_missing_def JSON_KEY_def
      write_and_run_def sample_env_def run_validator_def empty_world_def
      server_error_response_def str_of_exn_def JAVA_NOT_FOUND_def lit_def)

text \<open>
  C6 at the body \<open>{"json": 5}\<close>: the temporary file is created, \<open>write\<close> raises \<open>TypeError\<close>
  before the inner \<open>try\<close> is entered, the answer is the 500 of the general handler, and the
  file is still there when the handler returns.
\<close>

theorem write_failure_leaves_file:
  "validate_json (sample_env outcome) (post (JObj [(lit ''json'', JInt 5)])) empty_world =
     ((Json \<lparr>valid = False, message = lit ''Server error'', errors = [lit ''TypeError'']\<rparr>, 500),
      \<lparr>files = [tmp_name \<mapsto> []], started = []\<rparr>)"
  by (simp add: validate_json_def try_validate_def post_def field_missing_def JSON_KEY_def
      write_and_run_def sample_env_def empty_world_def server_error_response_def str_of_exn_def)

text \<open>
  C7 at the body \<open>5\<close>: it has no \<open>json\<close> field, \<open>'json' not in data\<close> raises \<open>TypeError\<close>, and
  the answer is the 500 of the general handler instead of the 400 (no process is started).
\<close>

theorem number_body_gives_500:
  "validate_json E (post (JInt 5)) w =
     ((Json \<lparr>valid = False, message = lit ''Server error'', errors = [wording E TypeError]\<rparr>, 500),
      w)"
  by (simp add: validate_json_def try_validate_def post_def field_missing_def
      server_error_response_def str_of_exn_def)

text \<open>
  C10. A POST whose body is \<open>null\<close>, \<open>false\<close>, \<open>0\<close>, \<open>0.0\<close>, the empty string, the empty array or
  the empty object is answered with the 400 response of the missing field, the one an
  object without the key \<open>json\<close> gets, and the state is unchanged: no exception of a read of
  the field, no file, no process.
\<close>

theorem falsy_body_gives_400:
  assumes "request_method req \<noteq> OPTIONS"
    and "get_json req = Inr data"
    and "data \<in> {JNull, JBool False, JInt 0, JFloat (Finite 0), JStr [], JArr [], JObj []}"
  shows "validate_json E req w =
           ((Json \<lparr>valid = False, message = lit ''No JSON input provided'',
                   errors = [lit ''Request must include '' @ [0x22] @ lit ''json'' @ [0x22] @
                             lit '' field'']\<rparr>, 400), w) \<and>
         validate_json E req w =
           validate_json E (req\<lparr>get_json := Inr (JObj [(lit ''text'', JStr [])])\<rparr>) w"
  using assms
  by (auto simp: validate_json_def try_validate_def field_missing_def missing_field_response_def
      JSON_KEY_def lit_def)

theorem falsy_body_gives_400_witness:
  "validate_json (sample_env (Inl TimeoutExpired)) (post JNull) empty_world =
     ((Json \<lparr>valid = False, message = lit ''No JSON input provided'',
             errors = [lit ''Request must include '' @ [0x22] @ lit ''json'' @ [0x22] @
                       lit '' field'']\<rparr>, 400), empty_world)"
  using falsy_body_gives_400 [of "post JNull" JNull "sample_env (Inl TimeoutExpired)" empty_world]
  by (simp add: post_def)

section \<open>The visitor counter under concurrent requests\<close>

lemma read_record:
  "i < length ts \<Longrightarrow> ts ! i = Start \<Longrightarrow>
   step fadd (Record n, ts) (Record n, ts[i := Read (JInt n)])"
  by (rule read_count) (simp_all add: Record_def)

lemma save_record:
  "i < length ts \<Longrightarrow> ts ! i = Read (JInt n) \<Longrightarrow>
   step fadd (f, ts) (Record (n + 1), ts[i := Returned (JInt (n + 1))])"
  using save_count [of i ts "JInt n" fadd "JInt (n + 1)" f]
  by (simp add: Record_def save_visitor_count_to_file_def)

text \<open>One after the other, two POSTs on the stored count 0 leave 2.\<close>

lemma serial_update:
  "run fadd (Record 0, [Start, Start]) (Record 2, [Returned (JInt 1), Returned (JInt 2)])"
proof -
  have 1: "step fadd (Record 0, [Start, Start]) (Record 0, [Read (JInt 0), Start])"
    using read_record [of 0 "[Start, Start]" fadd 0] by simp
  have 2: "step fadd (Record 0, [Read (JInt 0), Start]) (Record 1, [Returned (JInt 1), Start])"
    using save_record [of 0 "[Read (JInt 0), Start]" 0 fadd "Record 0"] by simp
  have 3: "step fadd (Record 1, [Returned (JInt 1), Start])
             (Record 1, [Returned (JInt 1), Read (JInt 1)])"
    using read_record [of 1 "[Returned (JInt 1), Start]" fadd 1] by simp
  have 4: "step fadd (Record 1, [Returned (JInt 1), Read (JInt 1)])
             (Record 2, [Returned (JInt 1), Returned (JInt 2)])"
    using save_record [of 1 "[Returned (JInt 1), Read (JInt 1)]" 1 fadd "Record 1"] by simp
  show ?thesis
    by (intro run_step [OF 1] run_step [OF 2] run_step [OF 3] run_step [OF 4] run_end)
qed

text \<open>
  C9 at two concurrent POSTs on the stored count 0: both read 0 before either saves, both
  save 1, both return, and the stored count is 1, not 2.
\<close>

theorem lost_update:
  "run fadd (Record 0, [Start, Start]) (Record 1, [Returned (JInt 1), Returned (JInt 1)]) \<and>
   list_all returned [Returned (JInt 1), Returned (JInt 1)] \<and> Record 1 \<noteq> Record (0 + 2)"
proof -
  have 1: "step fadd (Record 0, [Start, Start]) (Record 0, [Read (JInt 0), Start])"
    using read_record [of 0 "[Start, Start]" fadd 0] by simp
  have 2: "step fadd (Record 0, [Read (JInt 0), Start]) (Record 0, [Read (JInt 0), Read (JInt 0)])"
    using read_record [of 1 "[Read (JInt 0), Start]" fadd 0] by simp
  have 3: "step fadd (Record 0, [Read (JInt 0), Read (JInt 0)])
             (Record 1, [Returned (JInt 1), Read (JInt 0)])"
    using save_record [of 0 "[Read (JInt 0), Read (JInt 0)]" 0 fadd "Record 0"] by simp
  have 4: "step fadd (Record 1, [Returned (JInt 1), Read (JInt 0)])
             (Record 1, [Returned (JInt 1), Returned (JInt 1)])"
    using save_record [of 1 "[Returned (JInt 1), Read (JInt 0)]" 0 fadd "Record 1"] by simp
  have "run fadd (Record 0, [Start, Start]) (Record 1, [Returned (JInt 1), Returned (JInt 1)])"
    by (intro run_step [OF 1] run_step [OF 2] run_step [OF 3] run_step [OF 4] run_end)
  then show ?thesis by (simp add: Record_def)
qed

end
